theory Spec2Isabelle
  imports
    Main
    "HOL-Library.Word"
    "HOL-Library.Char_ord"
    "HOL-Library.List_Lexorder"
    "HOL-Library.Multiset"
begin

section \<open>dir-hasher: inventory, digest pass, manifest and archive\<close>

text \<open>
  A shallow embedding of \<^verbatim>\<open>src/shared/projects/dir-hasher/dir-hasher.go\<close>.
  Go byte slices and strings are \<open>string\<close> (a \<open>char\<close> is one byte), \<open>int64\<close> is
  \<open>64 word\<close>, Go's \<open>int\<close> counters are \<open>int\<close> (they count slice elements and cannot
  overflow). Everything the operating system or a library decides (directory contents,
  the outcome of \<open>Open\<close>/\<open>Read\<close>, the digest algorithms, the OpenPGP key and
  signature, the clock) is an explicit input of the model.
\<close>

subsection \<open>Operating-system values\<close>

type_synonym bytes = string

datatype os_error = ErrNotExist | ErrPermission | ErrIO

text \<open>The error value of one \<open>file.Read\<close> call: \<open>io.EOF\<close> or a real failure.\<close>

datatype read_error = EOF | ReadFailure os_error

text \<open>
  One \<open>file.Read(buffer)\<close> call returns \<open>(n, err)\<close>; the model keeps the \<open>n\<close> bytes
  \<open>buffer[:n]\<close> themselves. An opened file is the list of results its successive
  \<open>Read\<close> calls give; once the list is used up every further call returns
  \<open>(0, io.EOF)\<close>.
\<close>

type_synonym read_result = "bytes \<times> read_error option"

type_synonym os_file = "read_result list"

subsection \<open>Data model (lines 198-239)\<close>

record FileInfo =
  Path :: string
  Size :: "64 word"
  ModTime :: int
  IsDir :: bool
  RelPath :: string

record DirectoryInventory =
  RootDir :: string
  Files :: "FileInfo list"
  TotalSize :: "64 word"
  TotalFiles :: int
  TotalDirs :: int
  InventoryAt :: int

record HashResult =
  KangarooTwelve :: string
  Blake3 :: string
  SHA3_256 :: string
  Blake2b :: string
  SHA512 :: string
  Whirlpool :: string
  RIPEMD160 :: string
  XXH3 :: string
  SHA256 :: string
  XXHash64 :: string
  Murmur3 :: string
  GPGKeyID :: string
  GPGSignature :: string

subsection \<open>Library collaborators of the digest pass\<close>

text \<open>
  The eleven digest algorithms come from libraries. Each is a parameter: the function
  from the whole input to the raw digest (for \<open>xxh3.HashString\<close>, to a \<open>uint64\<close>).
\<close>

record digest_algos =
  alg_sha256 :: "bytes \<Rightarrow> bytes"
  alg_whirlpool :: "bytes \<Rightarrow> bytes"
  alg_ripemd160 :: "bytes \<Rightarrow> bytes"
  alg_sha3_256 :: "bytes \<Rightarrow> bytes"
  alg_blake2b :: "bytes \<Rightarrow> bytes"
  alg_blake3 :: "bytes \<Rightarrow> bytes"
  alg_sha512 :: "bytes \<Rightarrow> bytes"
  alg_xxh64 :: "bytes \<Rightarrow> bytes"
  alg_murmur3 :: "bytes \<Rightarrow> bytes"
  alg_k12 :: "bytes \<Rightarrow> bytes"
  xxh3_HashString :: "string \<Rightarrow> 64 word"

text \<open>
  A \<open>hash.Hash\<close> (and the KangarooTwelve state) is modelled by its contract: \<open>Write\<close>
  adds bytes to the running input, \<open>Sum(nil)\<close> (for K12: \<open>Read\<close> of 32 bytes) is the
  algorithm applied to everything written so far. The state is the input written so far.
\<close>

type_synonym hasher = bytes

definition hasher_New :: hasher where
  "hasher_New = []"

definition hasher_Write :: "hasher \<Rightarrow> bytes \<Rightarrow> hasher" where
  "hasher_Write h buf = h @ buf"

definition hasher_Sum :: "(bytes \<Rightarrow> bytes) \<Rightarrow> hasher \<Rightarrow> bytes" where
  "hasher_Sum alg h = alg h"

datatype gpg_error = KeyFileError | KeyGenError | SigningError

record entity =
  PrimaryKey_KeyId :: "64 word"

text \<open>
  The environment of one run: the outcome of \<open>os.Stat\<close> on a path, what \<open>os.Open\<close>
  and the reads of each path give, whether \<open>os.Create\<close> succeeds, whether the
  \<open>n\<close>-th \<open>WriteString\<close> to the manifest succeeds, whether the archive writer can
  create the header of an entry, write its data and write the central directory on
  \<open>Close\<close>, the library functions \<open>filepath.Base\<close> and \<open>filepath.Dir\<close>, the
  outcome of \<open>getGPGEntity\<close>, the signing operation behind \<open>signData\<close>, and the
  clock (\<open>time.Now()\<close> formatted as RFC 3339 for the signed text, and as a number).
\<close>

record env =
  os_Stat :: "string \<Rightarrow> os_error option"
  os_Open :: "string \<Rightarrow> os_error + os_file"
  os_Create :: "string \<Rightarrow> os_error option"
  toml_WriteString :: "nat \<Rightarrow> os_error option"
  zip_CreateHeader :: "string \<Rightarrow> os_error option"
  zip_Write :: "string \<Rightarrow> os_error option"
  zip_Close :: "os_error option"
  filepath_Base :: "string \<Rightarrow> string"
  filepath_Dir :: "string \<Rightarrow> string"
  getGPGEntity :: "gpg_error + entity"
  signData :: "entity \<Rightarrow> string \<Rightarrow> gpg_error + string"
  now_RFC3339 :: string
  time_Now :: int

subsection \<open>Formatting\<close>

definition hex_digit :: "nat \<Rightarrow> char" where
  "hex_digit d = ''0123456789abcdef'' ! d"

definition HEX_digit :: "nat \<Rightarrow> char" where
  "HEX_digit d = ''0123456789ABCDEF'' ! d"

text \<open>\<open>hex.EncodeToString\<close>: two lower-case digits per byte.\<close>

definition hex_byte :: "char \<Rightarrow> string" where
  "hex_byte c = [hex_digit (of_char c div 16), hex_digit (of_char c mod 16)]"

definition hex_EncodeToString :: "bytes \<Rightarrow> string" where
  "hex_EncodeToString bs = concat (map hex_byte bs)"

text \<open>\<open>%x\<close> and \<open>%X\<close> of an unsigned integer: no leading zeros, \<open>0\<close> for zero.\<close>

fun fmt_hex :: "(nat \<Rightarrow> char) \<Rightarrow> nat \<Rightarrow> string" where
  "fmt_hex dig n = (if n < 16 then [dig n] else fmt_hex dig (n div 16) @ [dig (n mod 16)])"

declare fmt_hex.simps [simp del]

definition Sprintf_x :: "64 word \<Rightarrow> string" where
  "Sprintf_x w = fmt_hex hex_digit (unat w)"

definition Sprintf_0xX :: "64 word \<Rightarrow> string" where
  "Sprintf_0xX w = ''0x'' @ fmt_hex HEX_digit (unat w)"

subsection \<open>generateDirectoryHashes (lines 348-503)\<close>

text \<open>The ten hashers created at lines 350-361. There is no XXH3 hasher.\<close>

record hashers =
  sha256Hasher :: hasher
  whirlpoolHasher :: hasher
  ripemd160Hasher :: hasher
  sha3_256Hasher :: hasher
  blake2bHasher :: hasher
  blake3Hasher :: hasher
  sha512Hasher :: hasher
  xxh64Hasher :: hasher
  murmur3Hasher :: hasher
  k12Hasher :: hasher

definition new_hashers :: hashers where
  "new_hashers =
     \<lparr> sha256Hasher = hasher_New, whirlpoolHasher = hasher_New, ripemd160Hasher = hasher_New,
       sha3_256Hasher = hasher_New, blake2bHasher = hasher_New, blake3Hasher = hasher_New,
       sha512Hasher = hasher_New, xxh64Hasher = hasher_New, murmur3Hasher = hasher_New,
       k12Hasher = hasher_New \<rparr>"

text \<open>
  Lines 397-410, the body of the read loop after a successful read of \<open>buf\<close>. The call
  \<open>xxh3.HashString(string(buffer[:n]))\<close> of line 410 computes a value and drops it: it
  changes no state, so it leaves no trace here.
\<close>

definition update_hashers :: "hashers \<Rightarrow> bytes \<Rightarrow> hashers" where
  "update_hashers hs buf =
     \<lparr> sha256Hasher = hasher_Write (sha256Hasher hs) buf,
       whirlpoolHasher = hasher_Write (whirlpoolHasher hs) buf,
       ripemd160Hasher = hasher_Write (ripemd160Hasher hs) buf,
       sha3_256Hasher = hasher_Write (sha3_256Hasher hs) buf,
       blake2bHasher = hasher_Write (blake2bHasher hs) buf,
       blake3Hasher = hasher_Write (blake3Hasher hs) buf,
       sha512Hasher = hasher_Write (sha512Hasher hs) buf,
       xxh64Hasher = hasher_Write (xxh64Hasher hs) buf,
       murmur3Hasher = hasher_Write (murmur3Hasher hs) buf,
       k12Hasher = hasher_Write (k12Hasher hs) buf \<rparr>"

datatype run_error =
    OpenError string os_error
  | ReadError string os_error
  | GPGKeyError gpg_error
  | SignError gpg_error

text \<open>
  The inner loop, lines 387-424 (the progress log of lines 412-423 writes to the log only
  and is left out). A read error other than \<open>io.EOF\<close> returns at once; a read of zero
  bytes ends the file; otherwise the chunk goes to the hashers.
\<close>

fun read_chunks :: "string \<Rightarrow> hashers \<Rightarrow> os_file \<Rightarrow> run_error + hashers" where
  "read_chunks path hs [] = Inr hs"
| "read_chunks path hs ((buf, err) # rest) =
     (case err of
        Some (ReadFailure e) \<Rightarrow> Inl (ReadError path e)
      | _ \<Rightarrow> if length buf = 0 then Inr hs
             else read_chunks path (update_hashers hs buf) rest)"

text \<open>The outer loop over \<open>inventory.Files\<close>, lines 369-427.\<close>

fun hash_files :: "env \<Rightarrow> hashers \<Rightarrow> FileInfo list \<Rightarrow> run_error + hashers" where
  "hash_files E hs [] = Inr hs"
| "hash_files E hs (fileInfo # rest) =
     (if IsDir fileInfo then hash_files E hs rest
      else case os_Open E (Path fileInfo) of
             Inl e \<Rightarrow> Inl (OpenError (Path fileInfo) e)
           | Inr file \<Rightarrow>
               (case read_chunks (Path fileInfo) hs file of
                  Inl e \<Rightarrow> Inl e
                | Inr hs' \<Rightarrow> hash_files E hs' rest))"

text \<open>The text that is signed, lines 465-480.\<close>

definition dataToSign :: "string \<Rightarrow> HashResult \<Rightarrow> string \<Rightarrow> string" where
  "dataToSign rootDir r ts =
     ''Directory: '' @ rootDir @
     [CHR 0x0A] @ ''SHA256: '' @ SHA256 r @
     [CHR 0x0A] @ ''SHA512: '' @ SHA512 r @
     [CHR 0x0A] @ ''BLAKE2b: '' @ Blake2b r @
     [CHR 0x0A] @ ''BLAKE3: '' @ Blake3 r @
     [CHR 0x0A] @ ''SHA3-256: '' @ SHA3_256 r @
     [CHR 0x0A] @ ''KangarooTwelve: '' @ KangarooTwelve r @
     [CHR 0x0A] @ ''Whirlpool: '' @ Whirlpool r @
     [CHR 0x0A] @ ''RIPEMD-160: '' @ RIPEMD160 r @
     [CHR 0x0A] @ ''XXH3: '' @ XXH3 r @
     [CHR 0x0A] @ ''XXHash64: '' @ XXHash64 r @
     [CHR 0x0A] @ ''Murmur3: '' @ Murmur3 r @
     [CHR 0x0A] @ ''Timestamp: '' @ ts"

text \<open>
  Lines 435-452: the digest values read from the hashers. The XXH3 value of line 452 is
  \<open>xxh3.HashString("Sample for XXH3")\<close>.
\<close>

definition hash_values :: "digest_algos \<Rightarrow> hashers \<Rightarrow> HashResult" where
  "hash_values A hs =
     \<lparr> KangarooTwelve = hex_EncodeToString (hasher_Sum (alg_k12 A) (k12Hasher hs)),
       Blake3 = hex_EncodeToString (hasher_Sum (alg_blake3 A) (blake3Hasher hs)),
       SHA3_256 = hex_EncodeToString (hasher_Sum (alg_sha3_256 A) (sha3_256Hasher hs)),
       Blake2b = hex_EncodeToString (hasher_Sum (alg_blake2b A) (blake2bHasher hs)),
       SHA512 = hex_EncodeToString (hasher_Sum (alg_sha512 A) (sha512Hasher hs)),
       Whirlpool = hex_EncodeToString (hasher_Sum (alg_whirlpool A) (whirlpoolHasher hs)),
       RIPEMD160 = hex_EncodeToString (hasher_Sum (alg_ripemd160 A) (ripemd160Hasher hs)),
       XXH3 = Sprintf_x (xxh3_HashString A ''Sample for XXH3''),
       SHA256 = hex_EncodeToString (hasher_Sum (alg_sha256 A) (sha256Hasher hs)),
       XXHash64 = hex_EncodeToString (hasher_Sum (alg_xxh64 A) (xxh64Hasher hs)),
       Murmur3 = hex_EncodeToString (hasher_Sum (alg_murmur3 A) (murmur3Hasher hs)),
       GPGKeyID = '''',
       GPGSignature = '''' \<rparr>"

definition generateDirectoryHashes ::
    "digest_algos \<Rightarrow> env \<Rightarrow> DirectoryInventory \<Rightarrow> run_error + HashResult" where
  "generateDirectoryHashes A E inventory =
     (case hash_files E new_hashers (Files inventory) of
        Inl e \<Rightarrow> Inl e
      | Inr hs \<Rightarrow>
          (let r = hash_values A hs in
           case getGPGEntity E of
             Inl e \<Rightarrow> Inl (GPGKeyError e)
           | Inr ent \<Rightarrow>
               (case signData E ent (dataToSign (RootDir inventory) r (now_RFC3339 E)) of
                  Inl e \<Rightarrow> Inl (SignError e)
                | Inr signature \<Rightarrow>
                    Inr (r\<lparr> GPGKeyID := Sprintf_0xX (PrimaryKey_KeyId ent),
                           GPGSignature := signature \<rparr>))))"

subsection \<open>The file tree and \<open>filepath.Walk\<close>\<close>

text \<open>
  What \<open>os.Lstat\<close> and \<open>Readdirnames\<close> report below the root. The entry list of a
  directory is in the order the operating system enumerates it.
\<close>

record stat_data =
  st_Size :: "64 word"
  st_ModTime :: int

datatype fsnode =
    LstatFails os_error
  | RegularFile stat_data
  | UnreadableDir stat_data os_error
  | Directory stat_data "(string \<times> fsnode) list"

text \<open>The \<open>fs.FileInfo\<close> handed to a walk function.\<close>

record fs_FileInfo =
  info_Size :: "64 word"
  info_ModTime :: int
  info_IsDir :: bool

definition file_info :: "stat_data \<Rightarrow> bool \<Rightarrow> fs_FileInfo" where
  "file_info st d = \<lparr> info_Size = st_Size st, info_ModTime = st_ModTime st, info_IsDir = d \<rparr>"

text \<open>
  One call of the walk function: \<open>fn(path, info, nil)\<close>, or \<open>fn(path, info, err)\<close> with
  \<open>info\<close> nil when \<open>Lstat\<close> failed.
\<close>

datatype visit =
    VisitOk string fs_FileInfo
  | VisitErr string "fs_FileInfo option" os_error

text \<open>
  \<open>filepath.Join(path, name)\<close> for a clean directory path that is neither \<open>.\<close> nor ends
  in a separator, and \<open>filepath.Rel(base, targ)\<close> for a target that is \<open>base\<close> or lies
  below it, which is all that \<open>Walk\<close> passes to its function; for other targets the
  model reports an error. \<open>sep\<close> is \<open>os.PathSeparator\<close>.
\<close>

definition Join :: "char \<Rightarrow> string \<Rightarrow> string \<Rightarrow> string" where
  "Join sep path name = path @ [sep] @ name"

definition Rel :: "char \<Rightarrow> string \<Rightarrow> string \<Rightarrow> unit + string" where
  "Rel sep base targ =
     (if targ = base then Inr ''.''
      else if take (length base + 1) targ = base @ [sep]
      then Inr (drop (length base + 1) targ)
      else Inl ())"

text \<open>
  The calls \<open>filepath.Walk\<close> makes, in order (Go 1.24, \<open>path/filepath\<close>): a failed
  \<open>Lstat\<close> is reported with the error; a file is visited; a directory whose names
  cannot be read is reported once with the error; a readable directory is visited, its
  names are sorted, and each entry is walked in that order.
\<close>

primrec visits :: "char \<Rightarrow> fsnode \<Rightarrow> string \<Rightarrow> visit list" where
  "visits sep (LstatFails e) = (\<lambda>path. [VisitErr path None e])"
| "visits sep (RegularFile st) = (\<lambda>path. [VisitOk path (file_info st False)])"
| "visits sep (UnreadableDir st e) = (\<lambda>path. [VisitErr path (Some (file_info st True)) e])"
| "visits sep (Directory st entries) = (\<lambda>path.
     VisitOk path (file_info st True) #
     concat (map (\<lambda>(name, walk). walk (Join sep path name))
                 (sort_key fst (map (map_prod id (visits sep)) entries))))"

text \<open>
  \<open>Walk\<close> stops at the first call whose result is not nil and returns that error.
  (\<open>SkipDir\<close> and \<open>SkipAll\<close> are left out: no walk function of this program returns
  them.)
\<close>

fun walk_calls :: "(visit \<Rightarrow> 's \<Rightarrow> 'e option \<times> 's) \<Rightarrow> visit list \<Rightarrow> 's \<Rightarrow> 'e option \<times> 's" where
  "walk_calls fn [] s = (None, s)"
| "walk_calls fn (v # vs) s =
     (case fn v s of
        (Some e, s') \<Rightarrow> (Some e, s')
      | (None, s') \<Rightarrow> walk_calls fn vs s')"

definition Walk ::
    "char \<Rightarrow> fsnode \<Rightarrow> string \<Rightarrow> (visit \<Rightarrow> 's \<Rightarrow> 'e option \<times> 's) \<Rightarrow> 's \<Rightarrow> 'e option \<times> 's" where
  "Walk sep tree root fn s = walk_calls fn (visits sep tree root) s"

subsection \<open>createDirectoryInventory (lines 298-345)\<close>

datatype log_line =
    LogAccessError string os_error
  | LogRelError string

datatype walk_error = WalkOsError os_error | WalkRelError | WalkZipDirectoryWrite

text \<open>The walk function of lines 306-342; the state is the inventory and the log.\<close>

definition inventory_walkFn ::
    "char \<Rightarrow> string \<Rightarrow> visit \<Rightarrow> DirectoryInventory \<times> log_line list
       \<Rightarrow> walk_error option \<times> DirectoryInventory \<times> log_line list" where
  "inventory_walkFn sep rootDir v s =
     (case s of (inventory, lg) \<Rightarrow>
       (case v of
          VisitErr path info e \<Rightarrow> (None, inventory, lg @ [LogAccessError path e])
        | VisitOk path info \<Rightarrow>
            (let (relPath, lg') =
                   (case Rel sep rootDir path of
                      Inl _ \<Rightarrow> (path, lg @ [LogRelError path])
                    | Inr r \<Rightarrow> (r, lg))
             in if path = rootDir then (None, inventory, lg')
                else
                  (let fileInfo = \<lparr> Path = path, Size = info_Size info,
                                     ModTime = info_ModTime info, IsDir = info_IsDir info,
                                     RelPath = relPath \<rparr>;
                       inventory1 = inventory\<lparr> Files := Files inventory @ [fileInfo] \<rparr>;
                       inventory2 =
                         (if info_IsDir info
                          then inventory1\<lparr> TotalDirs := TotalDirs inventory1 + 1 \<rparr>
                          else inventory1\<lparr> TotalFiles := TotalFiles inventory1 + 1,
                                            TotalSize := TotalSize inventory1 + info_Size info \<rparr>)
                   in (None, inventory2, lg')))))"

definition createDirectoryInventory ::
    "char \<Rightarrow> env \<Rightarrow> fsnode \<Rightarrow> string
       \<Rightarrow> DirectoryInventory \<times> walk_error option \<times> log_line list" where
  "createDirectoryInventory sep E tree rootDir =
     (let inventory = \<lparr> RootDir = rootDir, Files = [], TotalSize = 0, TotalFiles = 0,
                         TotalDirs = 0, InventoryAt = time_Now E \<rparr>
      in case Walk sep tree rootDir (inventory_walkFn sep rootDir) (inventory, []) of
           (err, inventory', lg) \<Rightarrow> (inventory', err, lg))"

subsection \<open>createTomlFile (lines 505-598)\<close>

text \<open>
  The manifest file is kept as the sequence of \<open>WriteString\<close> calls that reached it: the
  header block with its fields, then one block per regular file. The text layout of
  the \<open>Sprintf\<close> templates is not modelled.
\<close>

record toml_header =
  toml_generated_on :: int
  toml_name :: string
  toml_total_files :: int
  toml_total_directories :: int
  toml_total_size_bytes :: "64 word"
  toml_inventory_date :: int
  toml_hashes :: HashResult

datatype toml_chunk =
    TomlHeader toml_header
  | TomlFileEntry string "64 word" int

datatype zip_method = Store | Deflate

record zip_entry =
  entry_Name :: string
  entry_Modified :: int
  entry_Method :: zip_method
  entry_Data :: bytes

record zip_archive =
  zip_entries :: "zip_entry list"
  zip_central_directory :: bool

datatype artifact = TomlFile "toml_chunk list" | ZipFile zip_archive

type_synonym disk = "string \<rightharpoonup> artifact"

text \<open>The loop of lines 583-595; \<open>written\<close> is what the file holds so far.\<close>

fun write_file_entries ::
    "env \<Rightarrow> toml_chunk list \<Rightarrow> FileInfo list \<Rightarrow> os_error option \<times> toml_chunk list" where
  "write_file_entries E written [] = (None, written)"
| "write_file_entries E written (fileInfo # rest) =
     (if \<not> IsDir fileInfo then
        (case toml_WriteString E (length written) of
           Some e \<Rightarrow> (Some e, written)
         | None \<Rightarrow>
             write_file_entries E
               (written @ [TomlFileEntry (RelPath fileInfo) (Size fileInfo) (ModTime fileInfo)])
               rest)
      else write_file_entries E written rest)"

definition createTomlFile ::
    "env \<Rightarrow> string \<Rightarrow> string \<Rightarrow> DirectoryInventory \<Rightarrow> HashResult \<Rightarrow> disk
       \<Rightarrow> os_error option \<times> disk" where
  "createTomlFile E tomlPath dirName inventory hashResult d =
     (case os_Create E tomlPath of
        Some e \<Rightarrow> (Some e, d)
      | None \<Rightarrow>
          (let tomlContent = TomlHeader
                 \<lparr> toml_generated_on = time_Now E, toml_name = dirName,
                   toml_total_files = TotalFiles inventory,
                   toml_total_directories = TotalDirs inventory,
                   toml_total_size_bytes = TotalSize inventory,
                   toml_inventory_date = InventoryAt inventory,
                   toml_hashes = hashResult \<rparr>
           in case toml_WriteString E 0 of
                Some e \<Rightarrow> (Some e, d(tomlPath \<mapsto> TomlFile []))
              | None \<Rightarrow>
                  (case write_file_entries E [tomlContent] (Files inventory) of
                     (err, written) \<Rightarrow> (err, d(tomlPath \<mapsto> TomlFile written)))))"

subsection \<open>zipDirectory (lines 600-669)\<close>

text \<open>\<open>strings.ReplaceAll(relPath, "\\", "/")\<close>.\<close>

definition ReplaceAll_backslash :: "string \<Rightarrow> string" where
  "ReplaceAll_backslash s = map (\<lambda>c. if c = CHR 0x5C then CHR ''/'' else c) s"

text \<open>
  \<open>io.Copy\<close> from an opened file: the bytes read up to \<open>io.EOF\<close> or up to a failing
  read, and the error to return.
\<close>

fun io_Copy :: "os_file \<Rightarrow> bytes \<times> os_error option" where
  "io_Copy [] = ([], None)"
| "io_Copy ((buf, err) # rest) =
     (case err of
        None \<Rightarrow> (case io_Copy rest of (data, e) \<Rightarrow> (buf @ data, e))
      | Some EOF \<Rightarrow> (buf, None)
      | Some (ReadFailure e) \<Rightarrow> (buf, Some e))"

text \<open>
  What \<open>zip.Writer.CreateHeader\<close> (\<open>archive/zip\<close>) does with the header it is given:
  a name that ends in a slash is a directory entry; it is recorded with method
  \<open>Store\<close> whatever the header asked for, and the writer returned for it accepts no
  data (a write of one byte or more fails with "zip: write to directory").
\<close>

definition is_dir_name :: "string \<Rightarrow> bool" where
  "is_dir_name name \<longleftrightarrow> name \<noteq> [] \<and> last name = CHR ''/''"

definition CreateHeader_entry :: "zip_entry \<Rightarrow> zip_entry" where
  "CreateHeader_entry header =
     (if is_dir_name (entry_Name header) then header\<lparr> entry_Method := Store \<rparr> else header)"

text \<open>
  The walk function of lines 614-668; the state is the list of entries written so far.
  \<open>zip.FileInfoHeader\<close> fills the header from \<open>info\<close> and does not fail.
\<close>

definition zip_walkFn ::
    "char \<Rightarrow> env \<Rightarrow> string \<Rightarrow> visit \<Rightarrow> zip_entry list \<Rightarrow> walk_error option \<times> zip_entry list" where
  "zip_walkFn sep E sourceDir v written =
     (case v of
        VisitErr path info e \<Rightarrow> (Some (WalkOsError e), written)
      | VisitOk path info \<Rightarrow>
          (case Rel sep sourceDir path of
             Inl _ \<Rightarrow> (Some WalkRelError, written)
           | Inr relPath \<Rightarrow>
               if relPath = ''.'' then (None, written)
               else
                 (let name = ReplaceAll_backslash relPath;
                      name' = (if info_IsDir info then name @ ''/'' else name);
                      header = \<lparr> entry_Name = name', entry_Modified = info_ModTime info,
                                 entry_Method = Deflate, entry_Data = [] \<rparr>
                  in case zip_CreateHeader E name' of
                       Some e \<Rightarrow> (Some (WalkOsError e), written)
                     | None \<Rightarrow>
                         (let member = CreateHeader_entry header
                          in if info_IsDir info then (None, written @ [member])
                             else
                               (case os_Open E path of
                                  Inl e \<Rightarrow> (Some (WalkOsError e), written @ [member])
                                | Inr file \<Rightarrow>
                                    (case zip_Write E name' of
                                       Some e \<Rightarrow> (Some (WalkOsError e), written @ [member])
                                     | None \<Rightarrow>
                                         (case io_Copy file of
                                            (data, err) \<Rightarrow>
                                              if is_dir_name name' \<and> data \<noteq> []
                                              then (Some WalkZipDirectoryWrite, written @ [member])
                                              else (map_option WalkOsError err,
                                                    written @ [member\<lparr> entry_Data := data \<rparr>]))))))))"

text \<open>
  The deferred \<open>zipWriter.Close()\<close> runs on every return after the file was created and
  writes the central directory; its own error is dropped.
\<close>

definition zipDirectory ::
    "char \<Rightarrow> env \<Rightarrow> fsnode \<Rightarrow> string \<Rightarrow> string \<Rightarrow> disk \<Rightarrow> walk_error option \<times> disk" where
  "zipDirectory sep E tree sourceDir zipPath d =
     (case os_Create E zipPath of
        Some e \<Rightarrow> (Some (WalkOsError e), d)
      | None \<Rightarrow>
          (case Walk sep tree sourceDir (zip_walkFn sep E sourceDir) [] of
             (err, written) \<Rightarrow>
               (err, d(zipPath \<mapsto> ZipFile \<lparr> zip_entries = written,
                                            zip_central_directory = (zip_Close E = None) \<rparr>))))"

subsection \<open>main (lines 241-296)\<close>

datatype fatal =
    FatalDirNotExist
  | FatalInventory walk_error
  | FatalHashes run_error
  | FatalToml os_error
  | FatalZip walk_error

text \<open>
  \<open>log.Fatalf\<close> ends the process: the result is the fatal error, the disk as it is at
  that moment, and the log lines of the inventory walk.
\<close>

definition main ::
    "char \<Rightarrow> digest_algos \<Rightarrow> env \<Rightarrow> fsnode \<Rightarrow> string \<Rightarrow> disk
       \<Rightarrow> fatal option \<times> disk \<times> log_line list" where
  "main sep A E tree dirPath d =
     (if os_Stat E dirPath = Some ErrNotExist then (Some FatalDirNotExist, d, [])
      else
        (let dirName0 = filepath_Base E dirPath;
             dirName = (if dirName0 = ''.'' \<or> dirName0 = ''..'' \<or> dirName0 = ''/''
                           \<or> dirName0 = [CHR 0x5C]
                        then filepath_Base E (filepath_Dir E dirPath) else dirName0)
         in case createDirectoryInventory sep E tree dirPath of
              (inventory, Some e, lg) \<Rightarrow> (Some (FatalInventory e), d, lg)
            | (inventory, None, lg) \<Rightarrow>
                (case generateDirectoryHashes A E inventory of
                   Inl e \<Rightarrow> (Some (FatalHashes e), d, lg)
                 | Inr hashResult \<Rightarrow>
                     (case createTomlFile E (dirPath @ ''.toml'') dirName inventory hashResult d of
                        (Some e, d1) \<Rightarrow> (Some (FatalToml e), d1, lg)
                      | (None, d1) \<Rightarrow>
                          (case zipDirectory sep E tree dirPath (dirPath @ ''.zip'') d1 of
                             (Some e, d2) \<Rightarrow> (Some (FatalZip e), d2, lg)
                           | (None, d2) \<Rightarrow> (None, d2, lg))))))"


section \<open>Notions used in the statements\<close>

subsection \<open>File content and digest values\<close>

text \<open>
  The bytes an opened file delivers to a reader that stops at the first read of zero
  bytes, or the error of the first failing read before that.
\<close>

fun file_content :: "os_file \<Rightarrow> os_error + bytes" where
  "file_content [] = Inr []"
| "file_content ((buf, err) # rest) =
     (case err of
        Some (ReadFailure e) \<Rightarrow> Inl e
      | _ \<Rightarrow> if buf = [] then Inr []
             else (case file_content rest of Inl e \<Rightarrow> Inl e | Inr bs \<Rightarrow> Inr (buf @ bs)))"

text \<open>The byte content of the file at a path: the failure of opening or reading it, or its bytes.\<close>

definition content_of :: "env \<Rightarrow> string \<Rightarrow> os_error + bytes" where
  "content_of E path = (case os_Open E path of Inl e \<Rightarrow> Inl e | Inr fh \<Rightarrow> file_content fh)"

text \<open>The contents of the regular files of a record list, in list order.\<close>

definition regular_contents :: "env \<Rightarrow> FileInfo list \<Rightarrow> (os_error + bytes) list" where
  "regular_contents E fs = map (\<lambda>f. content_of E (Path f)) (filter (\<lambda>f. \<not> IsDir f) fs)"

definition eleven_digests :: "HashResult \<Rightarrow> string list" where
  "eleven_digests r =
     [KangarooTwelve r, Blake3 r, SHA3_256 r, Blake2b r, SHA512 r, Whirlpool r,
      RIPEMD160 r, XXH3 r, SHA256 r, XXHash64 r, Murmur3 r]"

subsection \<open>Inventory\<close>

text \<open>The relative path the walk function records: that of \<open>Rel\<close>, or the path itself.\<close>

definition rel_or_path :: "char \<Rightarrow> string \<Rightarrow> string \<Rightarrow> string" where
  "rel_or_path sep rootDir path = (case Rel sep rootDir path of Inl _ \<Rightarrow> path | Inr r \<Rightarrow> r)"

text \<open>The record one call of the walk function appends, if any.\<close>

fun visit_record :: "char \<Rightarrow> string \<Rightarrow> visit \<Rightarrow> FileInfo list" where
  "visit_record sep rootDir (VisitErr path info e) = []"
| "visit_record sep rootDir (VisitOk path info) =
     (if path = rootDir then []
      else [\<lparr> Path = path, Size = info_Size info, ModTime = info_ModTime info,
              IsDir = info_IsDir info, RelPath = rel_or_path sep rootDir path \<rparr>])"

fun visit_path :: "visit \<Rightarrow> string" where
  "visit_path (VisitOk path info) = path"
| "visit_path (VisitErr path info e) = path"

text \<open>An inventory after more records were appended and counted.\<close>

definition with_records :: "DirectoryInventory \<Rightarrow> FileInfo list \<Rightarrow> DirectoryInventory" where
  "with_records inventory fs =
     inventory\<lparr> Files := Files inventory @ fs,
                TotalSize := TotalSize inventory + sum_list (map Size (filter (\<lambda>f. \<not> IsDir f) fs)),
                TotalFiles := TotalFiles inventory + int (length (filter (\<lambda>f. \<not> IsDir f) fs)),
                TotalDirs := TotalDirs inventory + int (length (filter IsDir fs)) \<rparr>"

text \<open>The log lines one call of the walk function writes.\<close>

fun visit_log :: "char \<Rightarrow> string \<Rightarrow> visit \<Rightarrow> log_line list" where
  "visit_log sep rootDir (VisitErr path info e) = [LogAccessError path e]"
| "visit_log sep rootDir (VisitOk path info) =
     (case Rel sep rootDir path of Inl _ \<Rightarrow> [LogRelError path] | Inr _ \<Rightarrow> [])"

text \<open>The log line of a failed visit.\<close>

fun failure_log :: "visit \<Rightarrow> log_line list" where
  "failure_log (VisitErr path info e) = [LogAccessError path e]"
| "failure_log (VisitOk path info) = []"

fun is_VisitOk :: "visit \<Rightarrow> bool" where
  "is_VisitOk (VisitOk path info) = True"
| "is_VisitOk (VisitErr path info e) = False"

subsection \<open>File trees\<close>

text \<open>No directory lists a name twice.\<close>

primrec names_distinct :: "fsnode \<Rightarrow> bool" where
  "names_distinct (LstatFails e) = True"
| "names_distinct (RegularFile st) = True"
| "names_distinct (UnreadableDir st e) = True"
| "names_distinct (Directory st entries) =
     (distinct (map fst entries) \<and> list_all snd (map (map_prod id names_distinct) entries))"

text \<open>
  The same tree seen another time: every directory enumerates its entries in the order
  \<open>enum\<close> gives them, and the metadata of every node is changed by \<open>g\<close>.
\<close>

primrec rearrange ::
    "((string \<times> fsnode) list \<Rightarrow> (string \<times> fsnode) list) \<Rightarrow> (stat_data \<Rightarrow> stat_data)
       \<Rightarrow> fsnode \<Rightarrow> fsnode" where
  "rearrange enum g (LstatFails e) = LstatFails e"
| "rearrange enum g (RegularFile st) = RegularFile (g st)"
| "rearrange enum g (UnreadableDir st e) = UnreadableDir (g st) e"
| "rearrange enum g (Directory st entries) =
     Directory (g st) (enum (map (map_prod id (rearrange enum g)) entries))"

definition touch_info :: "(stat_data \<Rightarrow> stat_data) \<Rightarrow> fs_FileInfo \<Rightarrow> fs_FileInfo" where
  "touch_info g info =
     file_info (g \<lparr> st_Size = info_Size info, st_ModTime = info_ModTime info \<rparr>) (info_IsDir info)"

fun touch_visit :: "(stat_data \<Rightarrow> stat_data) \<Rightarrow> visit \<Rightarrow> visit" where
  "touch_visit g (VisitOk path info) = VisitOk path (touch_info g info)"
| "touch_visit g (VisitErr path info e) = VisitErr path (map_option (touch_info g) info) e"

text \<open>A node that can be visited, and a tree without the entries that cannot.\<close>

fun accessible :: "fsnode \<Rightarrow> bool" where
  "accessible (LstatFails e) = False"
| "accessible (UnreadableDir st e) = False"
| "accessible (RegularFile st) = True"
| "accessible (Directory st entries) = True"

primrec prune :: "fsnode \<Rightarrow> fsnode" where
  "prune (LstatFails e) = LstatFails e"
| "prune (RegularFile st) = RegularFile st"
| "prune (UnreadableDir st e) = UnreadableDir st e"
| "prune (Directory st entries) =
     Directory st (filter (\<lambda>(name, t). accessible t) (map (map_prod id prune) entries))"

text \<open>No entry name contains the path separator.\<close>

primrec separator_free :: "char \<Rightarrow> fsnode \<Rightarrow> bool" where
  "separator_free sep (LstatFails e) = True"
| "separator_free sep (RegularFile st) = True"
| "separator_free sep (UnreadableDir st e) = True"
| "separator_free sep (Directory st entries) =
     list_all (\<lambda>(name, ok). sep \<notin> set name \<and> ok) (map (map_prod id (separator_free sep)) entries)"

text \<open>The components of a path: the pieces between separators.\<close>

fun split_path :: "char \<Rightarrow> string \<Rightarrow> string list" where
  "split_path sep [] = [[]]"
| "split_path sep (c # s) =
     (if c = sep then [] # split_path sep s
      else (case split_path sep s of [] \<Rightarrow> [[c]] | x # xs \<Rightarrow> (c # x) # xs))"

text \<open>
  The component lists of the visits of a walk, in walk order, below the component list
  \<open>cs\<close> of the node itself; \<open>join_comps\<close> writes a component list as the path suffix
  it stands for, and \<open>path_key\<close> reads the components of a visited path below the root.
\<close>

definition join_comps :: "char \<Rightarrow> string list \<Rightarrow> string" where
  "join_comps sep cs = concat (map ((#) sep) cs)"

primrec comp_walk :: "fsnode \<Rightarrow> string list \<Rightarrow> string list list" where
  "comp_walk (LstatFails e) = (\<lambda>cs. [cs])"
| "comp_walk (RegularFile st) = (\<lambda>cs. [cs])"
| "comp_walk (UnreadableDir st e) = (\<lambda>cs. [cs])"
| "comp_walk (Directory st entries) = (\<lambda>cs.
     cs # concat (map (\<lambda>(name, walk). walk (cs @ [name]))
                      (sort_key fst (map (map_prod id comp_walk) entries))))"

definition path_key :: "char \<Rightarrow> string \<Rightarrow> visit \<Rightarrow> string list" where
  "path_key sep rootDir v = split_path sep (drop (length rootDir + 1) (visit_path v))"

text \<open>Entry names as a directory listing gives them: not empty, not \<open>.\<close>, not \<open>..\<close>.\<close>

primrec proper_names :: "fsnode \<Rightarrow> bool" where
  "proper_names (LstatFails e) = True"
| "proper_names (RegularFile st) = True"
| "proper_names (UnreadableDir st e) = True"
| "proper_names (Directory st entries) =
     list_all (\<lambda>(name, ok). name \<noteq> [] \<and> name \<noteq> ''.'' \<and> name \<noteq> ''..'' \<and> ok)
              (map (map_prod id proper_names) entries)"

text \<open>
  Adding a regular file with metadata \<open>nst\<close> under the name \<open>name\<close> to the directory
  reached from the node by the names \<open>ds\<close>; the target \<open>None\<close> leaves the node as it is.
  \<open>can_add\<close> holds when that directory exists, can be read, and has no entry of that name.
\<close>

primrec add_file :: "fsnode \<Rightarrow> (string list \<times> string \<times> stat_data) option \<Rightarrow> fsnode" where
  "add_file (LstatFails e) = (\<lambda>target. LstatFails e)"
| "add_file (RegularFile st) = (\<lambda>target. RegularFile st)"
| "add_file (UnreadableDir st e) = (\<lambda>target. UnreadableDir st e)"
| "add_file (Directory st entries) = (\<lambda>target.
     case target of
       None \<Rightarrow>
         Directory st (map (\<lambda>(n, f). (n, f None)) (map (map_prod id add_file) entries))
     | Some ([], name, nst) \<Rightarrow>
         Directory st ((name, RegularFile nst) #
                       map (\<lambda>(n, f). (n, f None)) (map (map_prod id add_file) entries))
     | Some (d # ds, name, nst) \<Rightarrow>
         Directory st (map (\<lambda>(n, f). (n, f (if n = d then Some (ds, name, nst) else None)))
                           (map (map_prod id add_file) entries)))"

primrec can_add :: "fsnode \<Rightarrow> string list \<Rightarrow> string \<Rightarrow> bool" where
  "can_add (LstatFails e) = (\<lambda>ds name. False)"
| "can_add (RegularFile st) = (\<lambda>ds name. False)"
| "can_add (UnreadableDir st e) = (\<lambda>ds name. False)"
| "can_add (Directory st entries) = (\<lambda>ds name.
     case ds of
       [] \<Rightarrow> name \<notin> set (map fst entries)
     | d # ds' \<Rightarrow> list_ex (\<lambda>(n, f). n = d \<and> f ds' name) (map (map_prod id can_add) entries))"

subsection \<open>Artifacts\<close>

text \<open>
  An archive entry stands for a visited path: the path lies below the source directory,
  and the entry is named by the rest of the path with every backslash replaced by a
  slash, followed by a slash for a directory; it is stored if its name ends in a slash
  and deflated otherwise.
\<close>

definition is_member_of :: "char \<Rightarrow> string \<Rightarrow> visit \<Rightarrow> zip_entry \<Rightarrow> bool" where
  "is_member_of sep sourceDir v e \<longleftrightarrow>
     (case v of
        VisitErr path info err \<Rightarrow> False
      | VisitOk path info \<Rightarrow>
          take (length sourceDir + 1) path = sourceDir @ [sep] \<and>
          entry_Name e = ReplaceAll_backslash (drop (length sourceDir + 1) path) @
                           (if info_IsDir info then ''/'' else []) \<and>
          entry_Method e = (if is_dir_name (entry_Name e) then Store else Deflate))"

text \<open>
  The file paths a manifest lists, the entry names of an archive, and whether the
  archive has its central directory.
\<close>

fun manifest_files :: "artifact option \<Rightarrow> string list" where
  "manifest_files (Some (TomlFile chunks)) =
     concat (map (\<lambda>c. case c of TomlFileEntry p s m \<Rightarrow> [p] | TomlHeader h \<Rightarrow> []) chunks)"
| "manifest_files other = []"

fun archive_names :: "artifact option \<Rightarrow> string list" where
  "archive_names (Some (ZipFile z)) = map entry_Name (zip_entries z)"
| "archive_names other = []"

fun archive_closed :: "artifact option \<Rightarrow> bool" where
  "archive_closed (Some (ZipFile z)) = zip_central_directory z"
| "archive_closed other = False"

subsection \<open>Example data\<close>

definition ex_stat :: stat_data where
  "ex_stat = \<lparr> st_Size = 5, st_ModTime = 0 \<rparr>"

text \<open>A directory \<open>r\<close> with \<open>a.txt\<close> = "hello" and \<open>b.txt\<close> = "world", enumerated \<open>b.txt\<close> first.\<close>

definition ex_tree :: fsnode where
  "ex_tree = Directory ex_stat [(''b.txt'', RegularFile ex_stat), (''a.txt'', RegularFile ex_stat)]"

definition ex_env :: env where
  "ex_env =
     \<lparr> os_Stat = (\<lambda>p. None),
       os_Open = (\<lambda>p. if p = ''r/a.txt'' then Inr [(''hel'', None), (''lo'', None)]
                       else if p = ''r/b.txt'' then Inr [(''world'', Some EOF)]
                       else Inl ErrNotExist),
       os_Create = (\<lambda>p. None),
       toml_WriteString = (\<lambda>n. None),
       zip_CreateHeader = (\<lambda>n. None),
       zip_Write = (\<lambda>n. None),
       zip_Close = None,
       filepath_Base = (\<lambda>p. ''r''),
       filepath_Dir = (\<lambda>p. ''.''),
       getGPGEntity = Inr \<lparr> PrimaryKey_KeyId = 255 \<rparr>,
       signData = (\<lambda>ent d. Inr ''sig''),
       now_RFC3339 = ''2025-07-20T00:00:00Z'',
       time_Now = 0 \<rparr>"

definition ex_inventory :: DirectoryInventory where
  "ex_inventory =
     \<lparr> RootDir = ''r'',
       Files = [\<lparr> Path = ''r/a.txt'', Size = 5, ModTime = 0, IsDir = False, RelPath = ''a.txt'' \<rparr>,
                \<lparr> Path = ''r/b.txt'', Size = 5, ModTime = 0, IsDir = False, RelPath = ''b.txt'' \<rparr>],
       TotalSize = 10, TotalFiles = 2, TotalDirs = 0, InventoryAt = 0 \<rparr>"

text \<open>The same directory with other bytes in both files.\<close>

definition ex_env_swapped :: env where
  "ex_env_swapped = ex_env\<lparr> os_Open := (\<lambda>p. Inr [(''something else entirely'', None)]) \<rparr>"

text \<open>The same directory where the second read of \<open>b.txt\<close> fails.\<close>

definition ex_env_unreadable :: env where
  "ex_env_unreadable =
     ex_env\<lparr> os_Open := (\<lambda>p. if p = ''r/a.txt'' then Inr [(''hello'', None)]
                              else Inr [(''wor'', None), ([], Some (ReadFailure ErrIO))]) \<rparr>"

text \<open>
  A later run on the same files: other read sizes, another key and signature, another
  time, the directory enumerated in the opposite order, and other modification times.
\<close>

definition ex_env_later :: env where
  "ex_env_later =
     ex_env\<lparr> os_Open := (\<lambda>p. if p = ''r/a.txt'' then Inr [(''hello'', Some EOF)]
                              else if p = ''r/b.txt'' then Inr [(''w'', None), (''orld'', None)]
                              else Inl ErrNotExist),
              getGPGEntity := Inr \<lparr> PrimaryKey_KeyId = 7 \<rparr>,
              signData := (\<lambda>ent d. Inr ''another signature''),
              now_RFC3339 := ''2025-07-21T00:00:00Z'',
              time_Now := 86400 \<rparr>"

definition ex_touch :: "stat_data \<Rightarrow> stat_data" where
  "ex_touch st = st\<lparr> st_ModTime := 86000 \<rparr>"

definition ex_inventory_later :: DirectoryInventory where
  "ex_inventory_later =
     \<lparr> RootDir = ''r'',
       Files = [\<lparr> Path = ''r/a.txt'', Size = 5, ModTime = 86000, IsDir = False, RelPath = ''a.txt'' \<rparr>,
                \<lparr> Path = ''r/b.txt'', Size = 5, ModTime = 86000, IsDir = False, RelPath = ''b.txt'' \<rparr>],
       TotalSize = 10, TotalFiles = 2, TotalDirs = 0, InventoryAt = 86400 \<rparr>"

text \<open>
  The directory \<open>r\<close> with two more entries: \<open>gone\<close>, whose \<open>Lstat\<close> fails, and the
  directory \<open>locked\<close>, whose names cannot be read.
\<close>

definition ex_tree_faulty :: fsnode where
  "ex_tree_faulty =
     Directory ex_stat
       [(''locked'', UnreadableDir ex_stat ErrPermission), (''b.txt'', RegularFile ex_stat),
        (''gone'', LstatFails ErrNotExist), (''a.txt'', RegularFile ex_stat)]"

text \<open>An environment in which the root does not exist.\<close>

definition ex_env_missing :: env where
  "ex_env_missing = ex_env\<lparr> os_Stat := (\<lambda>p. Some ErrNotExist) \<rparr>"

text \<open>A directory \<open>r\<close> that holds the file \<open>a.txt\<close> and the directory \<open>a\<close> with a file \<open>b\<close>.\<close>

definition ex_tree_nested :: fsnode where
  "ex_tree_nested =
     Directory ex_stat
       [(''a.txt'', RegularFile ex_stat), (''a'', Directory ex_stat [(''b'', RegularFile ex_stat)])]"

text \<open>Stand-ins for the digest algorithms, where a closed example needs some.\<close>

definition ex_algos :: digest_algos where
  "ex_algos =
     \<lparr> alg_sha256 = (\<lambda>bs. bs), alg_whirlpool = (\<lambda>bs. bs), alg_ripemd160 = (\<lambda>bs. bs),
       alg_sha3_256 = (\<lambda>bs. bs), alg_blake2b = (\<lambda>bs. bs), alg_blake3 = (\<lambda>bs. bs),
       alg_sha512 = (\<lambda>bs. bs), alg_xxh64 = (\<lambda>bs. bs), alg_murmur3 = (\<lambda>bs. bs),
       alg_k12 = (\<lambda>bs. bs), xxh3_HashString = (\<lambda>s. of_nat (length s)) \<rparr>"

text \<open>The directory \<open>r\<close> with an unreadable directory \<open>assets\<close> between its two files.\<close>

definition ex_tree_locked :: fsnode where
  "ex_tree_locked =
     Directory ex_stat
       [(''a.txt'', RegularFile ex_stat), (''assets'', UnreadableDir ex_stat ErrPermission),
        (''b.txt'', RegularFile ex_stat)]"

text \<open>A directory with a subdirectory, an empty directory and a file.\<close>

definition ex_tree_zip :: fsnode where
  "ex_tree_zip =
     Directory ex_stat
       [(''docs'', Directory ex_stat [(''x.txt'', RegularFile ex_stat)]),
        (''empty'', Directory ex_stat []), (''a.txt'', RegularFile ex_stat)]"

text \<open>
  An environment in which \<open>r/empty.txt\<close> opens and holds no bytes, the metadata of that
  file, and the inventory of \<open>r\<close> once the file is there.
\<close>

definition ex_env_empty :: env where
  "ex_env_empty =
     ex_env\<lparr> os_Open := (\<lambda>p. if p = ''r/empty.txt'' then Inr [] else os_Open ex_env p) \<rparr>"

definition ex_stat_empty :: stat_data where
  "ex_stat_empty = \<lparr> st_Size = 0, st_ModTime = 7 \<rparr>"

definition ex_inventory_empty :: DirectoryInventory where
  "ex_inventory_empty =
     \<lparr> RootDir = ''r'',
       Files = [\<lparr> Path = ''r/a.txt'', Size = 5, ModTime = 0, IsDir = False, RelPath = ''a.txt'' \<rparr>,
                \<lparr> Path = ''r/b.txt'', Size = 5, ModTime = 0, IsDir = False, RelPath = ''b.txt'' \<rparr>,
                \<lparr> Path = ''r/empty.txt'', Size = 0, ModTime = 7, IsDir = False, RelPath = ''empty.txt'' \<rparr>],
       TotalSize = 10, TotalFiles = 3, TotalDirs = 0, InventoryAt = 0 \<rparr>"

text \<open>A directory \<open>r\<close> with two files of \<open>2 ^ 62\<close> bytes each.\<close>

definition ex_stat_huge :: stat_data where
  "ex_stat_huge = \<lparr> st_Size = 2 ^ 62, st_ModTime = 0 \<rparr>"

definition ex_tree_huge :: fsnode where
  "ex_tree_huge =
     Directory ex_stat [(''a.bin'', RegularFile ex_stat_huge), (''b.bin'', RegularFile ex_stat_huge)]"


section \<open>Auxiliary lemmas\<close>

subsection \<open>Lists and sorting\<close>

lemma insort_key_map_same_key:
  assumes "\<And>x. k' (g x) = k x"
  shows "insort_key k' (g x) (map g xs) = map g (insort_key k x xs)"
  by (induction xs) (simp_all add: assms)

lemma sort_key_map_same_key:
  assumes "\<And>x. k' (g x) = k x"
  shows "sort_key k' (map g xs) = map g (sort_key k xs)"
  by (induction xs) (simp_all add: insort_key_map_same_key[of k' g k, OF assms])

lemma sort_key_map_prod:
  "sort_key fst (map (map_prod id f) xs) = map (map_prod id f) (sort_key fst xs)"
  by (rule sort_key_map_same_key) simp

lemma insort_key_split:
  "\<exists>ys zs. xs = ys @ zs \<and> insort_key f x xs = ys @ x # zs"
proof (induction xs)
  case Nil
  show ?case by simp
next
  case (Cons y xs)
  show ?case
  proof (cases "f x \<le> f y")
    case True
    then have "y # xs = [] @ (y # xs) \<and> insort_key f x (y # xs) = [] @ x # (y # xs)" by simp
    then show ?thesis by blast
  next
    case False
    from Cons.IH obtain ys zs where "xs = ys @ zs" "insort_key f x xs = ys @ x # zs" by blast
    with False have "y # xs = (y # ys) @ zs \<and> insort_key f x (y # xs) = (y # ys) @ x # zs" by simp
    then show ?thesis by blast
  qed
qed

lemma sort_two_files:
  assumes "mset entries = {#(''a.txt'', x), (''b.txt'', y)#}"
  shows "sort_key fst entries = [(''a.txt'', x), (''b.txt'', y)]"
proof (rule sort_key_inj_key_eq)
  show "mset entries = mset [(''a.txt'', x), (''b.txt'', y)]" using assms by simp
  have "set entries = {(''a.txt'', x), (''b.txt'', y)}"
    using assms by (metis mset_eq_setD set_mset_add_mset_insert set_mset_empty set_mset_mset)
  then show "inj_on fst (set entries)" by simp
  show "sorted (map fst [(''a.txt'', x), (''b.txt'', y)])" by simp
qed

lemma sorted_wrt_concat_map:
  assumes "sorted_wrt Q xs"
    and "\<And>x. x \<in> set xs \<Longrightarrow> sorted_wrt P (f x)"
    and "\<And>x y a b. Q x y \<Longrightarrow> a \<in> set (f x) \<Longrightarrow> b \<in> set (f y) \<Longrightarrow> P a b"
  shows "sorted_wrt P (concat (map f xs))"
  using assms(1,2)
proof (induction xs)
  case Nil
  show ?case by simp
next
  case (Cons x xs)
  have "P a b" if "a \<in> set (f x)" "b \<in> set (concat (map f xs))" for a b
  proof -
    from that(2) obtain y where "y \<in> set xs" "b \<in> set (f y)" by auto
    with Cons.prems(1) that(1) show ?thesis by (auto intro: assms(3))
  qed
  with Cons show ?case by (auto simp: sorted_wrt_append)
qed

lemma concat_map_filter_cong:
  "(\<And>x. x \<in> set xs \<Longrightarrow> (P x \<longrightarrow> f x = g x) \<and> (\<not> P x \<longrightarrow> g x = [])) \<Longrightarrow>
     concat (map f (filter P xs)) = concat (map g xs)"
  by (induction xs) auto

lemma map_concat_map_cong:
  "(\<And>x. x \<in> set xs \<Longrightarrow> map h (f x) = map k (g x)) \<Longrightarrow>
     map h (concat (map f xs)) = map k (concat (map g xs))"
  by (induction xs) simp_all

lemma list_eq_map_nth:
  "length xs = length ys \<Longrightarrow> (\<And>i. i < length xs \<Longrightarrow> f (xs ! i) = ys ! i) \<Longrightarrow> map f xs = ys"
  by (simp add: list_eq_iff_nth_eq)

lemma append_less_append: "(cs @ a < cs @ b) = (a < (b :: 'a :: linorder list))"
  by (induction cs) simp_all

lemma less_append_Cons: "cs < cs @ (n # r)" for cs :: "'a :: linorder list"
  using append_less_append[of cs "[]" "n # r"] by simp

lemma sint_sum_list_word:
  "sint (sum_list ws :: 64 word) = signed_take_bit 63 (sum_list (map sint ws))"
proof (induction ws)
  case Nil
  then show ?case by simp
next
  case (Cons w ws)
  have "sint (w + sum_list ws) = signed_take_bit 63 (sint w + sint (sum_list ws))"
    by (simp add: sint_word_ariths)
  also have "\<dots> = signed_take_bit 63 (sint w + sum_list (map sint ws))"
    using signed_take_bit_add[of 63 "sint w" "signed_take_bit 63 (sum_list (map sint ws))"]
          signed_take_bit_add[of 63 "sint w" "sum_list (map sint ws)"]
    unfolding Cons.IH by simp
  finally show ?case by simp
qed

lemma sint_sum_list_exact:
  "- (2 ^ 63) \<le> sum_list (map sint (ws :: 64 word list)) \<Longrightarrow>
   sum_list (map sint ws) < 2 ^ 63 \<Longrightarrow>
     sint (sum_list ws) = sum_list (map sint ws)"
  by (simp add: sint_sum_list_word signed_take_bit_int_eq_self)

subsection \<open>The digest pass\<close>

lemma update_hashers_Nil: "update_hashers hs [] = hs"
  by (simp add: update_hashers_def hasher_Write_def)

lemma update_hashers_append:
  "update_hashers (update_hashers hs a) b = update_hashers hs (a @ b)"
  by (simp add: update_hashers_def hasher_Write_def)

lemma update_new_hashers:
  "update_hashers new_hashers bs =
     \<lparr> sha256Hasher = bs, whirlpoolHasher = bs, ripemd160Hasher = bs, sha3_256Hasher = bs,
       blake2bHasher = bs, blake3Hasher = bs, sha512Hasher = bs, xxh64Hasher = bs,
       murmur3Hasher = bs, k12Hasher = bs \<rparr>"
  by (simp add: update_hashers_def new_hashers_def hasher_Write_def hasher_New_def)

lemma read_chunks_content:
  "read_chunks path hs fh =
     (case file_content fh of
        Inl e \<Rightarrow> Inl (ReadError path e)
      | Inr bs \<Rightarrow> Inr (update_hashers hs bs))"
proof (induction fh arbitrary: hs)
  case Nil
  show ?case by (simp add: update_hashers_Nil)
next
  case (Cons r rest)
  obtain buf err where r: "r = (buf, err)" by (cases r)
  show ?case
    unfolding r
    by (cases err; cases "file_content rest")
       (auto simp: Cons.IH update_hashers_Nil update_hashers_append split: read_error.splits)
qed

lemma hash_files_ok:
  "regular_contents E fs = map Inr bss \<Longrightarrow>
     hash_files E hs fs = Inr (update_hashers hs (concat bss))"
proof (induction fs arbitrary: hs bss)
  case Nil
  then show ?case by (simp add: regular_contents_def update_hashers_Nil)
next
  case (Cons f fs)
  show ?case
  proof (cases "IsDir f")
    case True
    with Cons show ?thesis by (simp add: regular_contents_def)
  next
    case False
    with Cons.prems obtain bs bss' where
      bss: "bss = bs # bss'" and c: "content_of E (Path f) = Inr bs"
      and rest: "regular_contents E fs = map Inr bss'"
      by (cases bss) (auto simp: regular_contents_def)
    from c obtain fh where o: "os_Open E (Path f) = Inr fh" and fc: "file_content fh = Inr bs"
      by (auto simp: content_of_def split: sum.splits)
    show ?thesis
      using False o fc Cons.IH[OF rest] 
      by (simp add: read_chunks_content bss update_hashers_append)
  qed
qed

lemma hash_files_fail:
  "f \<in> set fs \<Longrightarrow> \<not> IsDir f \<Longrightarrow> content_of E (Path f) = Inl e \<Longrightarrow>
     \<exists>p e'. hash_files E hs fs = Inl (OpenError p e') \<or> hash_files E hs fs = Inl (ReadError p e')"
proof (induction fs arbitrary: hs)
  case Nil
  then show ?case by simp
next
  case (Cons g fs)
  show ?case
  proof (cases "IsDir g")
    case True
    with Cons show ?thesis by auto
  next
    case False
    show ?thesis
    proof (cases "content_of E (Path g)")
      case (Inl e1)
      then show ?thesis using False
        by (auto simp: content_of_def read_chunks_content split: sum.splits)
    next
      case (Inr bs)
      with Cons.prems have "f \<in> set fs" by auto
      from Cons.IH[OF this Cons.prems(2,3)] Inr False show ?thesis
        by (auto simp: content_of_def read_chunks_content split: sum.splits)
    qed
  qed
qed

lemma hash_files_Inr_contents:
  "hash_files E hs fs = Inr hs' \<Longrightarrow> \<exists>bss. regular_contents E fs = map Inr bss"
proof (induction fs arbitrary: hs)
  case Nil
  then show ?case by (simp add: regular_contents_def)
next
  case (Cons g fs)
  show ?case
  proof (cases "IsDir g")
    case True
    with Cons show ?thesis by (auto simp: regular_contents_def)
  next
    case False
    with Cons.prems obtain fh hs1 where o: "os_Open E (Path g) = Inr fh"
      and r: "read_chunks (Path g) hs fh = Inr hs1" and h: "hash_files E hs1 fs = Inr hs'"
      by (auto split: sum.splits)
    from r obtain bs where "file_content fh = Inr bs"
      by (auto simp: read_chunks_content split: sum.splits)
    with o have c: "content_of E (Path g) = Inr bs" by (simp add: content_of_def)
    from Cons.IH[OF h] obtain bss where "regular_contents E fs = map Inr bss" by blast
    with c False have "regular_contents E (g # fs) = map Inr (bs # bss)"
      by (simp add: regular_contents_def)
    then show ?thesis by blast
  qed
qed

lemma hash_files_append:
  "hash_files E hs (a @ b) =
     (case hash_files E hs a of Inl e \<Rightarrow> Inl e | Inr hs' \<Rightarrow> hash_files E hs' b)"
  by (induction a arbitrary: hs) (auto split: sum.splits)

lemma hash_files_empty_file:
  assumes "\<not> IsDir f" and "content_of E (Path f) = Inr []"
  shows "hash_files E hs (f # rest) = hash_files E hs rest"
proof -
  from assms(2) obtain fh where "os_Open E (Path f) = Inr fh" "file_content fh = Inr []"
    by (auto simp: content_of_def split: sum.splits)
  with assms(1) show ?thesis by (simp add: read_chunks_content update_hashers_Nil)
qed

lemma generateDirectoryHashes_Inr:
  assumes "generateDirectoryHashes A E inventory = Inr r"
  shows "\<exists>bss. regular_contents E (Files inventory) = map Inr bss \<and>
           eleven_digests r = eleven_digests (hash_values A (update_hashers new_hashers (concat bss)))"
proof -
  from assms obtain hs where hs: "hash_files E new_hashers (Files inventory) = Inr hs"
    by (auto simp: generateDirectoryHashes_def split: sum.splits)
  from hash_files_Inr_contents[OF hs] obtain bss where
    c: "regular_contents E (Files inventory) = map Inr bss" by blast
  from hash_files_ok[OF c, of new_hashers] hs have "hs = update_hashers new_hashers (concat bss)"
    by simp
  with assms hs have "eleven_digests r = eleven_digests (hash_values A (update_hashers new_hashers (concat bss)))"
    by (auto simp: generateDirectoryHashes_def Let_def eleven_digests_def split: sum.splits)
  with c show ?thesis by blast
qed

lemma generateDirectoryHashes_ok:
  assumes "regular_contents E (Files inventory) = map Inr bss"
    and "getGPGEntity E = Inr ent"
    and "\<And>d. signData E ent d = Inr (sg d)"
  shows "\<exists>r. generateDirectoryHashes A E inventory = Inr r \<and>
           eleven_digests r = eleven_digests (hash_values A (update_hashers new_hashers (concat bss)))"
  using hash_files_ok[OF assms(1), of new_hashers] assms(2,3)
  by (simp add: generateDirectoryHashes_def Let_def eleven_digests_def)

lemma generateDirectoryHashes_cong:
  "hash_files E new_hashers (Files inv1) = hash_files E new_hashers (Files inv2) \<Longrightarrow>
   RootDir inv1 = RootDir inv2 \<Longrightarrow>
     generateDirectoryHashes A E inv1 = generateDirectoryHashes A E inv2"
  by (simp add: generateDirectoryHashes_def Let_def cong: sum.case_cong)

lemma regular_contents_append:
  "regular_contents E (a @ b) = regular_contents E a @ regular_contents E b"
  by (simp add: regular_contents_def)

lemma regular_contents_cong_env:
  "(\<And>p. content_of E2 p = content_of E1 p) \<Longrightarrow> regular_contents E2 fs = regular_contents E1 fs"
  by (simp add: regular_contents_def)

lemma digests_same_contents:
  assumes "generateDirectoryHashes A E1 inv1 = Inr r1"
    and "generateDirectoryHashes A E2 inv2 = Inr r2"
    and "regular_contents E1 (Files inv1) = regular_contents E2 (Files inv2)"
  shows "eleven_digests r1 = eleven_digests r2"
proof -
  from generateDirectoryHashes_Inr[OF assms(1)] obtain b1 where
    1: "regular_contents E1 (Files inv1) = map Inr b1"
       "eleven_digests r1 = eleven_digests (hash_values A (update_hashers new_hashers (concat b1)))"
    by blast
  from generateDirectoryHashes_Inr[OF assms(2)] obtain b2 where
    2: "regular_contents E2 (Files inv2) = map Inr b2"
       "eleven_digests r2 = eleven_digests (hash_values A (update_hashers new_hashers (concat b2)))"
    by blast
  from 1(1) 2(1) assms(3) have "map Inr b1 = (map Inr b2 :: (os_error + bytes) list)" by simp
  then have "b1 = b2" by (simp add: inj_map_eq_map)
  with 1(2) 2(2) show ?thesis by simp
qed

subsection \<open>The walk\<close>

lemma visits_Directory:
  "visits sep (Directory st entries) path =
     VisitOk path (file_info st True) #
     concat (map (\<lambda>(name, t). visits sep t (Join sep path name)) (sort_key fst entries))"
  by (simp add: sort_key_map_prod comp_def split_def)

lemma Rel_below: "Rel sep base (base @ sep # r) = Inr r"
  by (simp add: Rel_def)

lemma Rel_self: "Rel sep base base = Inr ''.''"
  by (simp add: Rel_def)

lemma visits_shape:
  "\<exists>v vs. visits sep t p = v # vs \<and> visit_path v = p \<and>
          (\<forall>w \<in> set vs. \<exists>r. visit_path w = p @ sep # r)"
proof (induction t arbitrary: p)
  case (Directory st entries)
  have "\<exists>r. visit_path w = p @ sep # r"
    if w: "w \<in> set (concat (map (\<lambda>(name, t). visits sep t (Join sep p name)) (sort_key fst entries)))"
    for w
  proof -
    from w obtain n t where m: "(n, t) \<in> set entries" and wv: "w \<in> set (visits sep t (Join sep p n))"
      by auto
    from Directory.IH[of "(n, t)" t "Join sep p n"] m obtain v vs where
      s: "visits sep t (Join sep p n) = v # vs" "visit_path v = Join sep p n"
         "\<forall>w \<in> set vs. \<exists>r. visit_path w = Join sep p n @ sep # r"
      by auto
    from wv s show ?thesis by (auto simp: Join_def)
  qed
  then show ?case unfolding visits_Directory by simp
qed simp_all

lemma visits_under_root:
  "\<forall>v \<in> set (visits sep t p). visit_path v = p \<or> (\<exists>r. visit_path v = p @ sep # r)"
  using visits_shape[of sep t p] by auto

lemma touch_info_file_info: "touch_info g (file_info st d) = file_info (g st) d"
  by (cases st) (simp add: touch_info_def file_info_def)

lemma names_distinct_entry:
  "names_distinct (Directory st entries) \<Longrightarrow> (n, t) \<in> set entries \<Longrightarrow> names_distinct t"
  by (auto simp: list_all_iff)

lemma visits_rearrange:
  assumes perm: "\<And>es. mset (enum es) = mset es"
  shows "names_distinct t \<Longrightarrow>
           visits sep (rearrange enum g t) p = map (touch_visit g) (visits sep t p)"
proof (induction t arbitrary: p)
  case (Directory st entries)
  let ?R = "rearrange enum g"
  let ?es = "map (map_prod id ?R) entries"
  have d: "distinct (map fst entries)" using Directory.prems by simp
  have "inj_on fst (set (enum ?es))"
  proof -
    have "distinct (map fst ?es)" using d by (simp add: comp_def)
    moreover have "mset (map fst (enum ?es)) = mset (map fst ?es)"
      using perm[of ?es] by (metis mset_map)
    ultimately have "distinct (map fst (enum ?es))"
      by (metis distinct_count_atmost_1 set_mset_mset)
    then show ?thesis by (simp add: distinct_map)
  qed
  with perm[of ?es] have s: "sort_key fst (enum ?es) = sort_key fst ?es"
    by (rule sort_key_eq_sort_key)
  have ih: "visits sep (?R t) q = map (touch_visit g) (visits sep t q)"
    if "(n, t) \<in> set (sort_key fst entries)" for n t q
  proof -
    from that have m: "(n, t) \<in> set entries" by simp
    then have "names_distinct t" using Directory.prems names_distinct_entry by blast
    with Directory.IH[of "(n, t)" t q] m show ?thesis by simp
  qed
  have "concat (map (\<lambda>(name, t). visits sep t (Join sep p name)) (sort_key fst ?es)) =
        concat (map (\<lambda>(name, t). visits sep (?R t) (Join sep p name)) (sort_key fst entries))"
    by (simp add: sort_key_map_prod comp_def split_def)
  also have "\<dots> = concat (map (\<lambda>(name, t). map (touch_visit g) (visits sep t (Join sep p name)))
                          (sort_key fst entries))"
    by (rule arg_cong[where f = concat], rule map_cong[OF refl]) (auto simp: ih)
  also have "\<dots> = map (touch_visit g)
                     (concat (map (\<lambda>(name, t). visits sep t (Join sep p name)) (sort_key fst entries)))"
    by (simp add: map_concat comp_def split_def)
  finally show ?case
    by (simp only: rearrange.simps visits_Directory s) (simp add: touch_info_file_info)
qed (simp_all add: touch_info_file_info)

lemma touch_visit_id: "touch_visit (\<lambda>st. st) v = v"
  by (cases v) (auto simp: touch_info_def file_info_def option.map_ident
                      intro: option.map_ident_strong)

lemma accessible_prune: "accessible (prune t) = accessible t"
  by (cases t) simp_all

lemma visits_inaccessible:
  "\<not> accessible t \<Longrightarrow> filter is_VisitOk (visits sep t p) = []"
  by (cases t) simp_all

lemma visits_prune:
  "accessible t \<Longrightarrow> visits sep (prune t) p = filter is_VisitOk (visits sep t p)"
proof (induction t arbitrary: p)
  case (Directory st entries)
  let ?A = "\<lambda>(name, t). accessible t"
  have 1: "sort_key fst (filter ?A (map (map_prod id prune) entries)) =
           map (map_prod id prune) (filter ?A (sort_key fst entries))"
    by (simp add: filter_sort[symmetric] sort_key_map_prod filter_map comp_def split_def
                  accessible_prune)
  have 2: "concat (map (\<lambda>(name, t). visits sep (prune t) (Join sep p name)) (filter ?A (sort_key fst entries))) =
           concat (map (\<lambda>(name, t). filter is_VisitOk (visits sep t (Join sep p name))) (sort_key fst entries))"
  proof (rule concat_map_filter_cong)
    fix x assume x: "x \<in> set (sort_key fst entries)"
    obtain n t where nt: "x = (n, t)" by (cases x)
    with x have m: "(n, t) \<in> set entries" by simp
    have "accessible t \<Longrightarrow> visits sep (prune t) (Join sep p n) =
            filter is_VisitOk (visits sep t (Join sep p n))"
      using Directory.IH[of "(n, t)" t "Join sep p n"] m by simp
    moreover have "\<not> accessible t \<Longrightarrow> filter is_VisitOk (visits sep t (Join sep p n)) = []"
      by (rule visits_inaccessible)
    ultimately show "(?A x \<longrightarrow> (case x of (name, t) \<Rightarrow> visits sep (prune t) (Join sep p name)) =
              (case x of (name, t) \<Rightarrow> filter is_VisitOk (visits sep t (Join sep p name)))) \<and>
          (\<not> ?A x \<longrightarrow> (case x of (name, t) \<Rightarrow> filter is_VisitOk (visits sep t (Join sep p name))) = [])"
      by (simp add: nt)
  qed
  show ?case
    unfolding prune.simps visits_Directory 1
    using 2 by (simp add: filter_concat comp_def split_def)
qed simp_all

lemma proper_names_entry:
  "proper_names (Directory st entries) \<Longrightarrow> (n, t) \<in> set entries \<Longrightarrow>
     n \<noteq> [] \<and> n \<noteq> ''.'' \<and> proper_names t"
  by (auto simp: list_all_iff)

lemma visits_below_not_dot:
  assumes "proper_names t" and "visits sep t p = v # vs" and "w \<in> set vs"
  shows "\<exists>r. visit_path w = p @ sep # r \<and> r \<noteq> ''.''"
proof (cases t)
  case (Directory st entries)
  with assms(2,3) obtain n t' where m: "(n, t') \<in> set entries"
    and w: "w \<in> set (visits sep t' (Join sep p n))"
    by (auto simp: visits_Directory simp del: visits.simps)
  from proper_names_entry[OF assms(1)[unfolded Directory] m] have n: "n \<noteq> []" "n \<noteq> ''.''" by simp_all
  from visits_shape[of sep t' "Join sep p n"] obtain v' vs' where
    s: "visits sep t' (Join sep p n) = v' # vs'" "visit_path v' = Join sep p n"
       "\<forall>w \<in> set vs'. \<exists>r. visit_path w = Join sep p n @ sep # r" by blast
  from w s consider "visit_path w = p @ sep # n" | r where "visit_path w = p @ sep # (n @ sep # r)"
    by (auto simp: Join_def)
  then show ?thesis
  proof cases
    case 1
    with n show ?thesis by simp
  next
    case 2
    moreover from n(1) have "n @ sep # r \<noteq> ''.''" by (cases n) auto
    ultimately show ?thesis by blast
  qed
qed (use assms in auto)

lemma add_file_None: "add_file t None = t"
proof (induction t)
  case (Directory st entries)
  have "map (\<lambda>(n, f). (n, f None)) (map (map_prod id add_file) entries) = map (\<lambda>x. x) entries"
    unfolding map_map
  proof (rule map_cong[OF refl])
    fix x assume x: "x \<in> set entries"
    obtain n t where nt: "x = (n, t)" by (cases x)
    with Directory.IH[of x t] x show "((\<lambda>(n, f). (n, f None)) \<circ> map_prod id add_file) x = x"
      by simp
  qed
  then show ?case by simp
qed simp_all

lemma add_file_here:
  "add_file (Directory st entries) (Some ([], name, nst)) =
     Directory st ((name, RegularFile nst) # entries)"
proof -
  have "map (\<lambda>(n, f). (n, f None)) (map (map_prod id add_file) entries) = map (\<lambda>x. x) entries"
    unfolding map_map by (rule map_cong[OF refl]) (auto simp: add_file_None)
  then show ?thesis by simp
qed

lemma add_file_below:
  "add_file (Directory st entries) (Some (d # ds, name, nst)) =
     Directory st (map (\<lambda>(n, t). (n, if n = d then add_file t (Some (ds, name, nst)) else t)) entries)"
proof -
  have "map (\<lambda>(n, f). (n, f (if n = d then Some (ds, name, nst) else None)))
            (map (map_prod id add_file) entries) =
        map (\<lambda>(n, t). (n, if n = d then add_file t (Some (ds, name, nst)) else t)) entries"
    unfolding map_map by (rule map_cong[OF refl]) (auto simp: add_file_None)
  then show ?thesis by simp
qed

lemma can_add_below:
  "can_add (Directory st entries) (d # ds) name =
     (\<exists>t. (d, t) \<in> set entries \<and> can_add t ds name)"
  by (force simp: list_ex_iff)

lemma visits_add_file:
  assumes "names_distinct t" and "can_add t ds name"
  shows "\<exists>vs1 vs2. vs1 \<noteq> [] \<and> visits sep t p = vs1 @ vs2 \<and>
           visits sep (add_file t (Some (ds, name, nst))) p =
             vs1 @ VisitOk (p @ join_comps sep (ds @ [name])) (file_info nst False) # vs2"
  using assms
proof (induction t arbitrary: ds p)
  case (Directory st entries)
  let ?g = "\<lambda>(n, t). visits sep t (Join sep p n)"
  let ?root = "VisitOk p (file_info st True)"
  show ?case
  proof (cases ds)
    case Nil
    from insort_key_split[of "sort_key fst entries" fst "(name, RegularFile nst)"]
    obtain ys zs where s: "sort_key fst entries = ys @ zs"
      and i: "insort_key fst (name, RegularFile nst) (sort_key fst entries) =
              ys @ (name, RegularFile nst) # zs" by blast
    have 1: "visits sep (Directory st entries) p = (?root # concat (map ?g ys)) @ concat (map ?g zs)"
      unfolding visits_Directory s by simp
    have 2: "visits sep (add_file (Directory st entries) (Some (ds, name, nst))) p =
          (?root # concat (map ?g ys)) @
          VisitOk (p @ join_comps sep (ds @ [name])) (file_info nst False) # concat (map ?g zs)"
      unfolding Nil add_file_here visits_Directory sort_key_simps i
      by (simp add: Join_def join_comps_def)
    from 1 2 show ?thesis by blast
  next
    case (Cons d ds')
    let ?h = "\<lambda>(n, t). (n, if n = d then add_file t (Some (ds', name, nst)) else t)"
    from Directory.prems(2) obtain t0 where m: "(d, t0) \<in> set entries" and c: "can_add t0 ds' name"
      unfolding Cons can_add_below by blast
    have nd0: "names_distinct t0" using Directory.prems(1) m names_distinct_entry by blast
    have dist: "distinct (map fst (sort_key fst entries))"
    proof -
      have "mset (map fst (sort_key fst entries)) = mset (map fst entries)" by simp
      moreover have "distinct (map fst entries)" using Directory.prems(1) by simp
      ultimately show ?thesis by (metis mset_eq_imp_distinct_iff)
    qed
    from m have "(d, t0) \<in> set (sort_key fst entries)" by simp
    from split_list[OF this] obtain ys zs where s: "sort_key fst entries = ys @ (d, t0) # zs"
      by blast
    from dist have out: "d \<notin> fst ` set ys" "d \<notin> fst ` set zs" unfolding s by auto
    have hy: "map ?h ys = ys" using out(1) by (induction ys) auto
    have hz: "map ?h zs = zs" using out(2) by (induction zs) auto
    have srt: "sort_key fst (map ?h entries) = ys @ (d, add_file t0 (Some (ds', name, nst))) # zs"
    proof -
      have "sort_key fst (map ?h entries) = map ?h (sort_key fst entries)"
        by (rule sort_key_map_same_key) auto
      then show ?thesis by (simp add: s hy hz)
    qed
    from Directory.IH[of "(d, t0)" t0 ds' "Join sep p d"] m nd0 c obtain a b where
      ab: "a \<noteq> []" "visits sep t0 (Join sep p d) = a @ b"
          "visits sep (add_file t0 (Some (ds', name, nst))) (Join sep p d) =
             a @ VisitOk (Join sep p d @ join_comps sep (ds' @ [name])) (file_info nst False) # b"
      by auto
    have pth: "Join sep p d @ join_comps sep (ds' @ [name]) = p @ join_comps sep (ds @ [name])"
      by (simp add: Cons Join_def join_comps_def)
    have 1: "visits sep (Directory st entries) p =
             (?root # concat (map ?g ys) @ a) @ (b @ concat (map ?g zs))"
      unfolding visits_Directory s by (simp add: ab(2))
    have 2: "visits sep (add_file (Directory st entries) (Some (ds, name, nst))) p =
          (?root # concat (map ?g ys) @ a) @
          VisitOk (p @ join_comps sep (ds @ [name])) (file_info nst False) # (b @ concat (map ?g zs))"
      unfolding Cons add_file_below visits_Directory srt
      by (simp add: ab(3) pth[unfolded Cons])
    from 1 2 show ?thesis by blast
  qed
qed simp_all

subsection \<open>Path components\<close>

lemma comp_walk_Directory:
  "comp_walk (Directory st entries) cs =
     cs # concat (map (\<lambda>(name, t). comp_walk t (cs @ [name])) (sort_key fst entries))"
  by (simp add: sort_key_map_prod comp_def split_def)

lemma join_comps_snoc: "join_comps sep (cs @ [n]) = join_comps sep cs @ sep # n"
  by (simp add: join_comps_def)

lemma join_comps_Cons: "join_comps sep (c # cs) = sep # c @ join_comps sep cs"
  by (simp add: join_comps_def)

lemma join_comps_snoc_neq: "rootDir @ join_comps sep (ds @ [name]) \<noteq> rootDir"
  by (simp add: join_comps_def)

lemma visits_comp_walk:
  "map visit_path (visits sep t (p @ join_comps sep cs)) =
     map (\<lambda>c. p @ join_comps sep c) (comp_walk t cs)"
proof (induction t arbitrary: cs)
  case (Directory st entries)
  have "map visit_path (visits sep t (Join sep (p @ join_comps sep cs) n)) =
        map (\<lambda>c. p @ join_comps sep c) (comp_walk t (cs @ [n]))"
    if "(n, t) \<in> set (sort_key fst entries)" for n t
  proof -
    from that have m: "(n, t) \<in> set entries" by simp
    have "Join sep (p @ join_comps sep cs) n = p @ join_comps sep (cs @ [n])"
      by (simp add: Join_def join_comps_snoc)
    with Directory.IH[of "(n, t)" t "cs @ [n]"] m show ?thesis by simp
  qed
  then show ?case
    unfolding visits_Directory comp_walk_Directory
    by (simp del: visits.simps comp_walk.simps) (rule map_concat_map_cong, auto)
qed simp_all

lemma comp_walk_extends:
  "c \<in> set (comp_walk t cs) \<Longrightarrow> \<exists>r. c = cs @ r"
proof (induction t arbitrary: cs c)
  case (Directory st entries)
  from Directory.prems have "c = cs \<or> c \<in> set (concat (map (\<lambda>(name, t). comp_walk t (cs @ [name])) (sort_key fst entries)))"
    unfolding comp_walk_Directory by simp
  then show ?case
  proof
    assume "c = cs"
    then show ?thesis by simp
  next
    assume "c \<in> set (concat (map (\<lambda>(name, t). comp_walk t (cs @ [name])) (sort_key fst entries)))"
    then obtain n t where m: "(n, t) \<in> set entries" and c: "c \<in> set (comp_walk t (cs @ [n]))"
      by auto
    from Directory.IH[of "(n, t)" t c "cs @ [n]"] m c obtain r where "c = (cs @ [n]) @ r" by auto
    then show ?thesis by simp
  qed
qed simp_all

lemma comp_walk_head: "\<exists>rest. comp_walk t cs = cs # rest"
  by (cases t) (simp_all add: comp_walk_Directory del: comp_walk.simps(4))

lemma comp_walk_sorted:
  "names_distinct t \<Longrightarrow> sorted_wrt (<) (comp_walk t cs)"
proof (induction t arbitrary: cs)
  case (Directory st entries)
  let ?f = "\<lambda>(name, t). comp_walk t (cs @ [name])"
  have d: "distinct (map fst entries)" using Directory.prems by simp
  have first: "cs < c" if "c \<in> set (concat (map ?f (sort_key fst entries)))" for c
  proof -
    from that obtain n t where "(n, t) \<in> set entries" and "c \<in> set (comp_walk t (cs @ [n]))"
      by auto
    from comp_walk_extends[OF this(2)] obtain r where "c = cs @ (n # r)" by auto
    then show ?thesis by (simp add: less_append_Cons)
  qed
  have "mset (map fst (sort_key fst entries)) = mset (map fst entries)" by simp
  with d have "distinct (map fst (sort_key fst entries))"
    by (metis mset_eq_imp_distinct_iff)
  then have "sorted_wrt (<) (map fst (sort_key fst entries))"
    by (simp add: strict_sorted_iff)
  then have q: "sorted_wrt (\<lambda>x y. fst x < fst y) (sort_key fst entries)"
    by (simp add: sorted_wrt_map)
  have blocks: "sorted_wrt (<) (concat (map ?f (sort_key fst entries)))"
  proof (rule sorted_wrt_concat_map[OF q])
    fix x assume "x \<in> set (sort_key fst entries)"
    then have x: "x \<in> set entries" by simp
    obtain n t where nt: "x = (n, t)" by (cases x)
    with x Directory.prems have "names_distinct t" using names_distinct_entry by blast
    with Directory.IH[of x t "cs @ [n]"] x nt show "sorted_wrt (<) (?f x)" by simp
  next
    fix x y a b
    assume lt: "fst x < fst y" and a: "a \<in> set (?f x)" and b: "b \<in> set (?f y)"
    obtain n t where x: "x = (n, t)" by (cases x)
    obtain m u where y: "y = (m, u)" by (cases y)
    from a x comp_walk_extends[of a t "cs @ [n]"] obtain r where a': "a = cs @ (n # r)" by auto
    from b y comp_walk_extends[of b u "cs @ [m]"] obtain s where b': "b = cs @ (m # s)" by auto
    from lt x y have "n < m" by simp
    then show "a < b" by (simp add: a' b' append_less_append)
  qed
  from first blocks show ?case
    unfolding comp_walk_Directory by simp
qed simp_all

lemma split_path_nonempty: "split_path sep s \<noteq> []"
  by (induction s) (auto split: list.splits)

lemma split_path_name:
  "sep \<notin> set n \<Longrightarrow> split_path sep (n @ s) = (n @ hd (split_path sep s)) # tl (split_path sep s)"
proof (induction n)
  case Nil
  then show ?case using split_path_nonempty[of sep s] by simp
next
  case (Cons c n)
  then show ?case by (auto split: list.splits)
qed

lemma split_path_single: "sep \<notin> set n \<Longrightarrow> split_path sep n = [n]"
  using split_path_name[of sep n "[]"] by simp

lemma split_path_Cons_name:
  "sep \<notin> set n \<Longrightarrow> split_path sep (n @ sep # s) = n # split_path sep s"
  using split_path_name[of sep n "sep # s"] by simp

lemma split_join_comps:
  "cs \<noteq> [] \<Longrightarrow> \<forall>n \<in> set cs. sep \<notin> set n \<Longrightarrow> split_path sep (tl (join_comps sep cs)) = cs"
proof (induction cs)
  case Nil
  then show ?case by simp
next
  case (Cons c cs)
  show ?case
  proof (cases cs)
    case Nil
    with Cons.prems show ?thesis by (simp add: join_comps_def split_path_single)
  next
    case (Cons c' cs')
    with Cons.IH Cons.prems have ih: "split_path sep (tl (join_comps sep cs)) = cs" by simp
    have "tl (join_comps sep (c # cs)) = c @ sep # tl (join_comps sep cs)"
      using Cons by (simp add: join_comps_def)
    with Cons.prems ih show ?thesis by (simp add: split_path_Cons_name)
  qed
qed

lemma separator_free_entry:
  "separator_free sep (Directory st entries) \<Longrightarrow> (n, t) \<in> set entries \<Longrightarrow>
     sep \<notin> set n \<and> separator_free sep t"
  by (auto simp: list_all_iff)

lemma comp_walk_separator_free:
  "separator_free sep t \<Longrightarrow> c \<in> set (comp_walk t cs) \<Longrightarrow>
     \<exists>r. c = cs @ r \<and> (\<forall>n \<in> set r. sep \<notin> set n)"
proof (induction t arbitrary: cs c)
  case (Directory st entries)
  from Directory.prems(2) have "c = cs \<or> c \<in> set (concat (map (\<lambda>(name, t). comp_walk t (cs @ [name])) (sort_key fst entries)))"
    unfolding comp_walk_Directory by simp
  then show ?case
  proof
    assume "c = cs"
    then show ?thesis by simp
  next
    assume "c \<in> set (concat (map (\<lambda>(name, t). comp_walk t (cs @ [name])) (sort_key fst entries)))"
    then obtain n t where m: "(n, t) \<in> set entries" and c: "c \<in> set (comp_walk t (cs @ [n]))"
      by auto
    from separator_free_entry[OF Directory.prems(1) m] have sf: "sep \<notin> set n" "separator_free sep t"
      by simp_all
    from Directory.IH[of "(n, t)" t c "cs @ [n]"] m sf(2) c obtain r where
      "c = (cs @ [n]) @ r" "\<forall>n \<in> set r. sep \<notin> set n" by auto
    with sf(1) have "c = cs @ (n # r) \<and> (\<forall>n \<in> set (n # r). sep \<notin> set n)" by simp
    then show ?thesis by blast
  qed
qed simp_all

lemma path_key_of_comps:
  assumes "c \<noteq> []" and "\<forall>n \<in> set c. sep \<notin> set n" and "visit_path v = rootDir @ join_comps sep c"
  shows "path_key sep rootDir v = c"
proof -
  from assms(1) obtain n r where c: "c = n # r" by (cases c) auto
  have "drop (length rootDir + 1) (rootDir @ join_comps sep c) = tl (join_comps sep c)"
    by (simp add: c join_comps_Cons)
  with assms show ?thesis by (simp add: path_key_def split_join_comps)
qed

subsection \<open>The inventory\<close>

lemma with_records_Nil: "with_records inventory [] = inventory"
  by (simp add: with_records_def)

lemma with_records_append:
  "with_records (with_records inventory a) b = with_records inventory (a @ b)"
  by (simp add: with_records_def)

lemma inventory_walkFn_closed:
  "inventory_walkFn sep rootDir v (inventory, lg) =
     (None, with_records inventory (visit_record sep rootDir v), lg @ visit_log sep rootDir v)"
  by (cases v)
     (auto simp: inventory_walkFn_def with_records_def rel_or_path_def Let_def split: sum.splits)

lemma walk_calls_inventory_closed:
  "walk_calls (inventory_walkFn sep rootDir) vs (inventory, lg) =
     (None, with_records inventory (concat (map (visit_record sep rootDir) vs)),
      lg @ concat (map (visit_log sep rootDir) vs))"
  by (induction vs arbitrary: inventory lg)
     (simp_all add: inventory_walkFn_closed with_records_Nil with_records_append)

lemma visit_log_under_root:
  "visit_path v = rootDir \<or> (\<exists>r. visit_path v = rootDir @ sep # r) \<Longrightarrow>
     visit_log sep rootDir v = failure_log v"
  by (cases v) (auto simp: Rel_below Rel_self)

lemma createDirectoryInventory_closed:
  "createDirectoryInventory sep E tree rootDir =
     (with_records \<lparr> RootDir = rootDir, Files = [], TotalSize = 0, TotalFiles = 0,
                      TotalDirs = 0, InventoryAt = time_Now E \<rparr>
        (concat (map (visit_record sep rootDir) (visits sep tree rootDir))),
      None,
      concat (map failure_log (visits sep tree rootDir)))"
proof -
  have "map (visit_log sep rootDir) (visits sep tree rootDir) =
        map failure_log (visits sep tree rootDir)"
  proof (rule map_cong[OF refl])
    fix v assume "v \<in> set (visits sep tree rootDir)"
    with visits_under_root[of sep tree rootDir]
    have "visit_path v = rootDir \<or> (\<exists>r. visit_path v = rootDir @ sep # r)" by blast
    then show "visit_log sep rootDir v = failure_log v" by (rule visit_log_under_root)
  qed
  then have "concat (map (visit_log sep rootDir) (visits sep tree rootDir)) =
        concat (map failure_log (visits sep tree rootDir))"
    by (rule arg_cong)
  then show ?thesis
    by (simp add: createDirectoryInventory_def Walk_def walk_calls_inventory_closed)
qed

lemma createDirectoryInventory_Files:
  assumes "createDirectoryInventory sep E tree rootDir = (inventory, err, lg)"
  shows "err = None"
    and "Files inventory = concat (map (visit_record sep rootDir) (visits sep tree rootDir))"
    and "RootDir inventory = rootDir" and "InventoryAt inventory = time_Now E"
  using assms by (auto simp: createDirectoryInventory_closed with_records_def)

lemma regular_contents_touch:
  "regular_contents E (visit_record sep rootDir (touch_visit g v)) =
     regular_contents E (visit_record sep rootDir v)"
  by (cases v) (auto simp: regular_contents_def touch_info_def file_info_def)

lemma regular_contents_touch_visits:
  "regular_contents E (concat (map (visit_record sep rootDir) (map (touch_visit g) vs))) =
     regular_contents E (concat (map (visit_record sep rootDir) vs))"
proof (induction vs)
  case Nil
  show ?case by simp
next
  case (Cons v vs)
  then show ?case by (simp add: regular_contents_append regular_contents_touch)
qed

lemma visit_record_filter_ok:
  "concat (map (visit_record sep rootDir) (filter is_VisitOk vs)) =
     concat (map (visit_record sep rootDir) vs)"
proof (induction vs)
  case Nil
  show ?case by simp
next
  case (Cons v vs)
  then show ?case by (cases v) simp_all
qed

lemma visit_record_prune:
  "concat (map (visit_record sep rootDir) (visits sep (prune t) p)) =
     concat (map (visit_record sep rootDir) (visits sep t p))"
proof (cases "accessible t")
  case True
  then show ?thesis by (simp add: visits_prune visit_record_filter_ok)
next
  case False
  then have "prune t = t" by (cases t) simp_all
  then show ?thesis by simp
qed

lemma record_keys:
  assumes "\<forall>w \<in> set vs. \<exists>r. visit_path w = rootDir @ sep # r"
  shows "map (\<lambda>f. split_path sep (RelPath f)) (concat (map (visit_record sep rootDir) vs)) =
         map (path_key sep rootDir) (filter is_VisitOk vs)"
  using assms
proof (induction vs)
  case Nil
  show ?case by simp
next
  case (Cons v vs)
  from Cons.prems obtain r where r: "visit_path v = rootDir @ sep # r" by auto
  have "map (\<lambda>f. split_path sep (RelPath f)) (visit_record sep rootDir v) =
        map (path_key sep rootDir) (filter is_VisitOk [v])"
    using r by (cases v) (auto simp: rel_or_path_def Rel_below path_key_def)
  with Cons show ?case by simp
qed

lemma inventory_sorted_by_components:
  assumes nd: "names_distinct tree" and sf: "separator_free sep tree"
    and inv: "createDirectoryInventory sep E tree rootDir = (inventory, err, lg)"
  shows "sorted_wrt (<) (map (\<lambda>f. split_path sep (RelPath f)) (Files inventory))"
proof -
  let ?vs = "visits sep tree rootDir"
  let ?cs = "comp_walk tree []"
  from visits_shape[of sep tree rootDir] obtain v0 vs' where
    vs: "?vs = v0 # vs'" and v0: "visit_path v0 = rootDir"
    and under: "\<forall>w \<in> set vs'. \<exists>r. visit_path w = rootDir @ sep # r" by blast
  from comp_walk_head[of tree "[]"] obtain cs' where cs: "?cs = [] # cs'" by blast
  have srt: "sorted_wrt (<) ?cs" using nd by (rule comp_walk_sorted)
  have paths: "map visit_path ?vs = map (\<lambda>c. rootDir @ join_comps sep c) ?cs"
    using visits_comp_walk[of sep tree rootDir "[]"] by (simp add: join_comps_def)
  then have paths': "map visit_path vs' = map (\<lambda>c. rootDir @ join_comps sep c) cs'"
    by (simp add: vs cs)
  then have len: "length vs' = length cs'" by (metis length_map)
  have keys: "map (path_key sep rootDir) vs' = cs'"
  proof (rule list_eq_map_nth[OF len])
    fix i assume i: "i < length vs'"
    with len have ci: "cs' ! i \<in> set cs'" by simp
    then have "cs' ! i \<in> set ?cs" by (simp add: cs)
    from comp_walk_separator_free[OF sf this] have free: "\<forall>n \<in> set (cs' ! i). sep \<notin> set n"
      by auto
    from srt ci have ne: "cs' ! i \<noteq> []" by (auto simp: cs)
    from paths' i len have "visit_path (vs' ! i) = rootDir @ join_comps sep (cs' ! i)"
      by (metis nth_map)
    from path_key_of_comps[OF ne free this] show "path_key sep rootDir (vs' ! i) = cs' ! i" .
  qed
  have "Files inventory = concat (map (visit_record sep rootDir) ?vs)"
    using createDirectoryInventory_Files(2)[OF inv] .
  also have "\<dots> = concat (map (visit_record sep rootDir) vs')"
    using v0 by (cases v0) (simp_all add: vs)
  finally have "map (\<lambda>f. split_path sep (RelPath f)) (Files inventory) =
                map (path_key sep rootDir) (filter is_VisitOk vs')"
    using record_keys[OF under] by simp
  also have "\<dots> = filter (\<lambda>c. c \<in> path_key sep rootDir ` set (filter is_VisitOk vs')) cs'"
    (is "_ = ?rhs")
  proof -
    have "sorted_wrt (<) cs'" using srt by (simp add: cs)
    then have dcs: "distinct cs'" by (simp add: strict_sorted_iff)
    have "distinct (map (path_key sep rootDir) vs')" using dcs keys by simp
    then have inj: "inj_on (path_key sep rootDir) (set vs')" by (simp add: distinct_map)
    have "map (path_key sep rootDir) (filter is_VisitOk vs') =
          filter (\<lambda>c. c \<in> path_key sep rootDir ` set (filter is_VisitOk vs'))
                 (map (path_key sep rootDir) vs')"
      unfolding filter_map comp_def
    proof (rule arg_cong[where f = "map (path_key sep rootDir)"], rule filter_cong[OF refl])
      fix w assume w: "w \<in> set vs'"
      show "is_VisitOk w = (path_key sep rootDir w \<in> path_key sep rootDir ` set (filter is_VisitOk vs'))"
        using inj w by (auto dest: inj_onD)
    qed
    with keys show ?thesis by simp
  qed
  finally have "map (\<lambda>f. split_path sep (RelPath f)) (Files inventory) = ?rhs" .
  moreover have "sorted_wrt (<) ?rhs"
    using srt by (simp add: cs sorted_wrt_filter)
  ultimately show ?thesis by simp
qed

lemma empty_visit_neutral:
  assumes "visits sep tree rootDir = vs1 @ vs2"
    and "visits sep tree' rootDir =
           vs1 @ VisitOk path \<lparr> info_Size = 0, info_ModTime = m, info_IsDir = False \<rparr> # vs2"
    and "path \<noteq> rootDir"
    and "content_of E path = Inr []"
    and "createDirectoryInventory sep E tree rootDir = (inventory, err, lg)"
    and "createDirectoryInventory sep E tree' rootDir = (inventory', err', lg')"
  shows "TotalFiles inventory' = TotalFiles inventory + 1 \<and>
         TotalSize inventory' = TotalSize inventory \<and>
         TotalDirs inventory' = TotalDirs inventory \<and>
         generateDirectoryHashes A E inventory' = generateDirectoryHashes A E inventory"
proof -
  let ?inv0 = "\<lparr> RootDir = rootDir, Files = [], TotalSize = 0, TotalFiles = 0,
                  TotalDirs = 0, InventoryAt = time_Now E \<rparr>"
  let ?r1 = "concat (map (visit_record sep rootDir) vs1)"
  let ?r2 = "concat (map (visit_record sep rootDir) vs2)"
  let ?f = "\<lparr> Path = path, Size = 0, ModTime = m, IsDir = False,
               RelPath = rel_or_path sep rootDir path \<rparr>"
  have i: "inventory = with_records ?inv0 (?r1 @ ?r2)"
    using assms(5) by (simp add: createDirectoryInventory_closed assms(1))
  have i': "inventory' = with_records ?inv0 (?r1 @ ?f # ?r2)"
    using assms(6) assms(3) by (simp add: createDirectoryInventory_closed assms(2))
  have e: "hash_files E hs (?f # ?r2) = hash_files E hs ?r2" for hs
    by (rule hash_files_empty_file) (simp_all add: assms(4))
  have h: "hash_files E new_hashers (Files inventory') = hash_files E new_hashers (Files inventory)"
    by (simp add: i i' with_records_def hash_files_append e del: hash_files.simps
             cong: sum.case_cong)
  have "generateDirectoryHashes A E inventory' = generateDirectoryHashes A E inventory"
    by (rule generateDirectoryHashes_cong[OF h]) (simp add: i i' with_records_def)
  then show ?thesis by (simp add: i i' with_records_def)
qed

subsection \<open>Manifest, archive and main\<close>

lemma createTomlFile_header:
  assumes "createTomlFile E tomlPath dirName inventory hashResult d = (None, d1)"
  shows "\<exists>h rest. d1 tomlPath = Some (TomlFile (TomlHeader h # rest)) \<and>
           toml_total_files h = TotalFiles inventory \<and>
           toml_total_directories h = TotalDirs inventory \<and>
           toml_total_size_bytes h = TotalSize inventory \<and>
           toml_hashes h = hashResult"
proof -
  have w: "\<exists>rest. written = pre @ rest"
    if "write_file_entries E pre fs = (err, written)" for pre fs err written
    using that
  proof (induction fs arbitrary: pre)
    case Nil
    then show ?case by simp
  next
    case (Cons f fs)
    show ?case
    proof (cases "\<not> IsDir f \<and> toml_WriteString E (length pre) = None")
      case True
      with Cons.prems have "write_file_entries E
          (pre @ [TomlFileEntry (RelPath f) (Size f) (ModTime f)]) fs = (err, written)" by simp
      from Cons.IH[OF this] show ?thesis by auto
    next
      case False
      with Cons.prems Cons.IH[of pre] show ?thesis by (auto split: option.splits if_splits)
    qed
  qed
  from assms show ?thesis
    by (auto simp: createTomlFile_def Let_def split: option.splits prod.splits dest!: w)
qed

lemma zip_walkFn_root:
  "visit_path v = sourceDir \<Longrightarrow> zip_walkFn sep E sourceDir v written = (err, written') \<Longrightarrow>
     written' = written"
  by (cases v) (auto simp: zip_walkFn_def Rel_self)

lemma zip_walkFn_member:
  assumes "visit_path v = sourceDir @ sep # r" and "r \<noteq> ''.''"
    and "zip_walkFn sep E sourceDir v written = (err, written')"
  shows "(written' = written \<and> err \<noteq> None) \<or>
         (\<exists>e. written' = written @ [e] \<and> is_member_of sep sourceDir v e)"
  using assms
  by (cases v)
     (auto simp: zip_walkFn_def Rel_below Let_def is_member_of_def CreateHeader_entry_def
           split: option.splits sum.splits prod.splits if_splits)

lemma walk_calls_zip:
  assumes "\<forall>w \<in> set vs. \<exists>r. visit_path w = sourceDir @ sep # r \<and> r \<noteq> ''.''"
    and "walk_calls (zip_walkFn sep E sourceDir) vs written = (err, written')"
  shows "\<exists>new. written' = written @ new \<and>
           list_all2 (is_member_of sep sourceDir) (take (length new) vs) new \<and>
           (err = None \<longrightarrow> length new = length vs)"
  using assms
proof (induction vs arbitrary: written)
  case Nil
  then show ?case by simp
next
  case (Cons v vs)
  from Cons.prems(1) obtain r where r: "visit_path v = sourceDir @ sep # r" "r \<noteq> ''.''" by auto
  obtain e1 w1 where f: "zip_walkFn sep E sourceDir v written = (e1, w1)"
    by (cases "zip_walkFn sep E sourceDir v written")
  from zip_walkFn_member[OF r f] consider
    (stop) "w1 = written" "e1 \<noteq> None"
    | (add) e where "w1 = written @ [e]" "is_member_of sep sourceDir v e" by blast
  then show ?case
  proof cases
    case stop
    with Cons.prems(2) f have "written' = written" "err \<noteq> None" by (auto split: option.splits)
    then show ?thesis by auto
  next
    case add
    show ?thesis
    proof (cases e1)
      case (Some a)
      with Cons.prems(2) f add have "written' = written @ [e]" "err \<noteq> None" by auto
      with add(2) show ?thesis by auto
    next
      case None
      with Cons.prems(2) f have "walk_calls (zip_walkFn sep E sourceDir) vs w1 = (err, written')"
        by simp
      from Cons.IH[OF _ this] Cons.prems(1) obtain new where
        n: "written' = w1 @ new" "list_all2 (is_member_of sep sourceDir) (take (length new) vs) new"
           "err = None \<longrightarrow> length new = length vs" by auto
      have "written' = written @ (e # new)" using n(1) add(1) by simp
      moreover have "list_all2 (is_member_of sep sourceDir) (take (length (e # new)) (v # vs)) (e # new)"
        using n(2) add(2) by simp
      moreover have "err = None \<longrightarrow> length (e # new) = length (v # vs)" using n(3) by simp
      ultimately show ?thesis by blast
    qed
  qed
qed

lemma member_no_backslash:
  "is_member_of sep sourceDir v e \<Longrightarrow> CHR 0x5C \<notin> set (entry_Name e)"
  by (cases v) (auto simp: is_member_of_def ReplaceAll_backslash_def split: if_splits)

lemma main_hash_failure:
  assumes "os_Stat E dirPath \<noteq> Some ErrNotExist"
    and "createDirectoryInventory sep E tree dirPath = (inventory, werr, lg)"
    and "generateDirectoryHashes A E inventory = Inl err"
  shows "main sep A E tree dirPath d = (Some (FatalHashes err), d, lg)"
proof -
  from createDirectoryInventory_Files(1)[OF assms(2)] have "werr = None" .
  with assms show ?thesis by (simp add: main_def Let_def)
qed

subsection \<open>The examples, evaluated\<close>

lemma ex_inventory_walk:
  "createDirectoryInventory (CHR ''/'') ex_env ex_tree ''r'' = (ex_inventory, None, [])"
  by code_simp

lemma ex_inventory_walk_unreadable:
  "createDirectoryInventory (CHR ''/'') ex_env_unreadable ex_tree ''r'' = (ex_inventory, None, [])"
  by code_simp

lemma ex_contents:
  "regular_contents ex_env (Files ex_inventory) = [Inr ''hello'', Inr ''world'']"
  "regular_contents ex_env_swapped (Files ex_inventory) =
     [Inr ''something else entirely'', Inr ''something else entirely'']"
  by (simp_all add: regular_contents_def content_of_def ex_env_def ex_env_swapped_def ex_inventory_def)

lemma ex_zip_walk:
  "Walk (CHR 0x5C) ex_tree_zip ''r'' (zip_walkFn (CHR 0x5C) ex_env_swapped ''r'') [] =
     (None,
      [\<lparr> entry_Name = ''a.txt'', entry_Modified = 0, entry_Method = Deflate,
          entry_Data = ''something else entirely'' \<rparr>,
       \<lparr> entry_Name = ''docs/'', entry_Modified = 0, entry_Method = Store, entry_Data = [] \<rparr>,
       \<lparr> entry_Name = ''docs/x.txt'', entry_Modified = 0, entry_Method = Deflate,
          entry_Data = ''something else entirely'' \<rparr>,
       \<lparr> entry_Name = ''empty/'', entry_Modified = 0, entry_Method = Store, entry_Data = [] \<rparr>])"
  by code_simp


section \<open>The claims\<close>


text \<open>
  C1. Every chunk read from a regular file is fed to all eleven accumulators, and the
  XXH3 value of the result reflects all processed bytes. The code does otherwise: it
  keeps ten accumulators, drops the XXH3 value it computes per chunk, and reports the
  XXH3 of the fixed string "Sample for XXH3" whatever the files hold.
\<close>

theorem XXH3_is_sample_digest:
  "generateDirectoryHashes A E inventory = Inr r \<Longrightarrow>
     XXH3 r = Sprintf_x (xxh3_HashString A ''Sample for XXH3'')"
  by (auto simp: generateDirectoryHashes_def hash_values_def Let_def split: sum.splits)

theorem XXH3_is_sample_digest_witness:
  "\<forall>A. \<exists>r1 r2. generateDirectoryHashes A ex_env ex_inventory = Inr r1 \<and>
     generateDirectoryHashes A ex_env_swapped ex_inventory = Inr r2 \<and>
     regular_contents ex_env (Files ex_inventory) = [Inr ''hello'', Inr ''world''] \<and>
     regular_contents ex_env_swapped (Files ex_inventory) =
       [Inr ''something else entirely'', Inr ''something else entirely''] \<and>
     XXH3 r1 = Sprintf_x (xxh3_HashString A ''Sample for XXH3'') \<and>
     XXH3 r2 = Sprintf_x (xxh3_HashString A ''Sample for XXH3'')"
proof
  fix A
  obtain r1 where r1: "generateDirectoryHashes A ex_env ex_inventory = Inr r1"
    by (auto simp: generateDirectoryHashes_def ex_env_def ex_inventory_def Let_def)
  obtain r2 where r2: "generateDirectoryHashes A ex_env_swapped ex_inventory = Inr r2"
    by (auto simp: generateDirectoryHashes_def ex_env_swapped_def ex_env_def ex_inventory_def Let_def)
  from XXH3_is_sample_digest[OF r1] XXH3_is_sample_digest[OF r2] r1 r2 ex_contents
  show "\<exists>r1 r2. generateDirectoryHashes A ex_env ex_inventory = Inr r1 \<and>
     generateDirectoryHashes A ex_env_swapped ex_inventory = Inr r2 \<and>
     regular_contents ex_env (Files ex_inventory) = [Inr ''hello'', Inr ''world''] \<and>
     regular_contents ex_env_swapped (Files ex_inventory) =
       [Inr ''something else entirely'', Inr ''something else entirely''] \<and>
     XXH3 r1 = Sprintf_x (xxh3_HashString A ''Sample for XXH3'') \<and>
     XXH3 r2 = Sprintf_x (xxh3_HashString A ''Sample for XXH3'')"
    by blast
qed


text \<open>
  C2. For a directory that holds exactly the regular files \<open>a.txt\<close> with content
  "hello" and \<open>b.txt\<close> with content "world", in whatever order the directory
  enumerates them and in whatever chunks they are read, the run of the walk and the
  digest pass succeeds once the key and the signature are there, and its SHA-256 value
  is the hex encoding of SHA-256 of "helloworld".
\<close>

theorem hello_world_sha256:
  assumes "mset entries = {#(''a.txt'', RegularFile sta), (''b.txt'', RegularFile stb)#}"
    and "content_of E (Join sep rootDir ''a.txt'') = Inr ''hello''"
    and "content_of E (Join sep rootDir ''b.txt'') = Inr ''world''"
    and "createDirectoryInventory sep E (Directory st entries) rootDir = (inventory, err, lg)"
    and "getGPGEntity E = Inr ent"
    and "\<And>d. signData E ent d = Inr (sg d)"
  shows "\<exists>r. generateDirectoryHashes A E inventory = Inr r \<and>
           SHA256 r = hex_EncodeToString (alg_sha256 A ''helloworld'')"
proof -
  have v: "visits sep (Directory st entries) rootDir =
      [VisitOk rootDir (file_info st True),
       VisitOk (Join sep rootDir ''a.txt'') (file_info sta False),
       VisitOk (Join sep rootDir ''b.txt'') (file_info stb False)]"
    unfolding visits_Directory sort_two_files[OF assms(1)] by simp
  have "Files inventory = concat (map (visit_record sep rootDir) (visits sep (Directory st entries) rootDir))"
    using createDirectoryInventory_Files(2)[OF assms(4)] .
  then have "regular_contents E (Files inventory) = map Inr [''hello'', ''world'']"
    unfolding v using assms(2,3)
    by (simp add: regular_contents_def file_info_def Join_def)
  from generateDirectoryHashes_ok[OF this assms(5) assms(6), of A]
  obtain r where r: "generateDirectoryHashes A E inventory = Inr r"
    and d: "eleven_digests r =
            eleven_digests (hash_values A (update_hashers new_hashers (concat [''hello'', ''world''])))"
    by blast
  from d have "SHA256 r = hex_EncodeToString (alg_sha256 A ''helloworld'')"
    by (simp add: eleven_digests_def hash_values_def update_new_hashers hasher_Sum_def)
  with r show ?thesis by blast
qed

theorem hello_world_sha256_witness:
  "\<forall>A. \<exists>r. createDirectoryInventory (CHR ''/'') ex_env ex_tree ''r'' = (ex_inventory, None, []) \<and>
     generateDirectoryHashes A ex_env ex_inventory = Inr r \<and>
     SHA256 r = hex_EncodeToString (alg_sha256 A ''helloworld'')"
proof
  fix A
  have 1: "mset [(''b.txt'', RegularFile ex_stat), (''a.txt'', RegularFile ex_stat)] =
           {#(''a.txt'', RegularFile ex_stat), (''b.txt'', RegularFile ex_stat)#}" by simp
  have 2: "content_of ex_env (Join (CHR ''/'') ''r'' ''a.txt'') = Inr ''hello''"
    by (simp add: content_of_def ex_env_def Join_def)
  have 3: "content_of ex_env (Join (CHR ''/'') ''r'' ''b.txt'') = Inr ''world''"
    by (simp add: content_of_def ex_env_def Join_def)
  have 4: "createDirectoryInventory (CHR ''/'') ex_env
             (Directory ex_stat [(''b.txt'', RegularFile ex_stat), (''a.txt'', RegularFile ex_stat)]) ''r'' =
           (ex_inventory, None, [])"
    using ex_inventory_walk by (simp add: ex_tree_def)
  have 5: "getGPGEntity ex_env = Inr \<lparr> PrimaryKey_KeyId = 255 \<rparr>" by (simp add: ex_env_def)
  have 6: "\<And>d. signData ex_env \<lparr> PrimaryKey_KeyId = 255 \<rparr> d = Inr ((\<lambda>d. ''sig'') d)"
    by (simp add: ex_env_def)
  from hello_world_sha256[OF 1 2 3 4 5 6, of A] ex_inventory_walk
  show "\<exists>r. createDirectoryInventory (CHR ''/'') ex_env ex_tree ''r'' = (ex_inventory, None, []) \<and>
     generateDirectoryHashes A ex_env ex_inventory = Inr r \<and>
     SHA256 r = hex_EncodeToString (alg_sha256 A ''helloworld'')"
    by blast
qed


text \<open>
  C3. The inventory holds its records sorted by relative path, whatever the enumeration
  order. As stated this fails: the code never sorts the records; it keeps the order of
  \<open>filepath.Walk\<close>, which puts the contents of directory \<open>a\<close> before the sibling
  \<open>a.txt\<close>, although \<open>a/b\<close> is greater than \<open>a.txt\<close> as a string.
\<close>

theorem inventory_not_sorted_by_relative_path:
  "map RelPath (Files (fst (createDirectoryInventory (CHR ''/'') ex_env ex_tree_nested ''r''))) =
     [''a'', ''a/b'', ''a.txt''] \<and>
   \<not> sorted (map RelPath (Files (fst (createDirectoryInventory (CHR ''/'') ex_env ex_tree_nested ''r''))))"
  by code_simp

text \<open>
  C3, amended. The inventory does not depend on the order in which directories
  enumerate their entries, and its records are sorted by relative path compared
  component by component (the list of names between separators, names compared as
  strings): each directory is followed by its contents, siblings in ascending name
  order. This holds for trees whose directories list no name twice and whose names do
  not contain the separator.
\<close>

theorem inventory_in_walk_order:
  assumes "names_distinct tree" and "separator_free sep tree"
    and "\<And>es. mset (enum es) = mset es"
  shows "createDirectoryInventory sep E (rearrange enum (\<lambda>st. st) tree) rootDir =
           createDirectoryInventory sep E tree rootDir \<and>
         sorted_wrt (<) (map (\<lambda>f. split_path sep (RelPath f))
                             (Files (fst (createDirectoryInventory sep E tree rootDir))))"
proof -
  have "map (touch_visit (\<lambda>st. st)) (visits sep tree rootDir) = visits sep tree rootDir"
    by (simp add: touch_visit_id map_idI)
  then have "visits sep (rearrange enum (\<lambda>st. st) tree) rootDir = visits sep tree rootDir"
    using visits_rearrange[of enum tree sep "\<lambda>st. st" rootDir, OF assms(3) assms(1)] by simp
  then have 1: "createDirectoryInventory sep E (rearrange enum (\<lambda>st. st) tree) rootDir =
           createDirectoryInventory sep E tree rootDir"
    by (simp only: createDirectoryInventory_closed)
  obtain inventory err lg where
    c: "createDirectoryInventory sep E tree rootDir = (inventory, err, lg)"
    by (cases "createDirectoryInventory sep E tree rootDir")
  from inventory_sorted_by_components[OF assms(1,2) c] c 1 show ?thesis by simp
qed

theorem inventory_in_walk_order_witness:
  "createDirectoryInventory (CHR ''/'') ex_env (rearrange rev (\<lambda>st. st) ex_tree_nested) ''r'' =
     createDirectoryInventory (CHR ''/'') ex_env ex_tree_nested ''r'' \<and>
   map (\<lambda>f. split_path (CHR ''/'') (RelPath f))
       (Files (fst (createDirectoryInventory (CHR ''/'') ex_env ex_tree_nested ''r''))) =
     [[''a''], [''a'', ''b''], [''a.txt'']] \<and>
   sorted_wrt (<) [[''a''], [''a'', ''b''], [''a.txt'']]"
proof -
  have 1: "names_distinct ex_tree_nested" by (simp add: ex_tree_nested_def)
  have 2: "separator_free (CHR ''/'') ex_tree_nested" by (simp add: ex_tree_nested_def)
  have 3: "\<And>es :: (string \<times> fsnode) list. mset (rev es) = mset es" by simp
  have 4: "map (\<lambda>f. split_path (CHR ''/'') (RelPath f))
       (Files (fst (createDirectoryInventory (CHR ''/'') ex_env ex_tree_nested ''r''))) =
     [[''a''], [''a'', ''b''], [''a.txt'']]"
    by code_simp
  from inventory_in_walk_order[of ex_tree_nested "CHR ''/''" rev ex_env "''r''", OF 1 2 3] 4
  show ?thesis by simp
qed


text \<open>
  C4. Two runs of the digest pass on an unchanged tree give the same eleven digest
  values. The second run may find every directory enumerated in another order and other
  metadata on every node, may read in other chunk sizes, at another time and with
  another signing key: as long as every path has the same byte content, the digests of
  the two successful runs are equal.
\<close>

theorem digests_deterministic:
  assumes "names_distinct tree"
    and "\<And>es. mset (enum es) = mset es"
    and "\<And>p. content_of E2 p = content_of E1 p"
    and "createDirectoryInventory sep E1 tree rootDir = (inv1, err1, lg1)"
    and "createDirectoryInventory sep E2 (rearrange enum g tree) rootDir = (inv2, err2, lg2)"
    and "generateDirectoryHashes A E1 inv1 = Inr r1"
    and "generateDirectoryHashes A E2 inv2 = Inr r2"
  shows "eleven_digests r1 = eleven_digests r2"
proof -
  have f1: "Files inv1 = concat (map (visit_record sep rootDir) (visits sep tree rootDir))"
    using createDirectoryInventory_Files(2)[OF assms(4)] .
  have f2: "Files inv2 =
      concat (map (visit_record sep rootDir) (map (touch_visit g) (visits sep tree rootDir)))"
    using createDirectoryInventory_Files(2)[OF assms(5)]
          visits_rearrange[of enum tree sep g rootDir, OF assms(2) assms(1)] by simp
  have "regular_contents E2 (Files inv2) = regular_contents E1 (Files inv2)"
    using assms(3) by (rule regular_contents_cong_env)
  also have "\<dots> = regular_contents E1 (Files inv1)"
    unfolding f1 f2 by (rule regular_contents_touch_visits)
  finally show ?thesis
    using digests_same_contents[OF assms(6) assms(7)] by simp
qed

theorem digests_deterministic_witness:
  "\<forall>A. \<exists>r1 r2.
     createDirectoryInventory (CHR ''/'') ex_env ex_tree ''r'' = (ex_inventory, None, []) \<and>
     createDirectoryInventory (CHR ''/'') ex_env_later (rearrange rev ex_touch ex_tree) ''r'' =
       (ex_inventory_later, None, []) \<and>
     generateDirectoryHashes A ex_env ex_inventory = Inr r1 \<and>
     generateDirectoryHashes A ex_env_later ex_inventory_later = Inr r2 \<and>
     eleven_digests r1 = eleven_digests r2"
proof
  fix A
  have nd: "names_distinct ex_tree" by (simp add: ex_tree_def)
  have pm: "\<And>es :: (string \<times> fsnode) list. mset (rev es) = mset es" by simp
  have ct: "\<And>p. content_of ex_env_later p = content_of ex_env p"
    by (simp add: content_of_def ex_env_later_def ex_env_def)
  have w2: "createDirectoryInventory (CHR ''/'') ex_env_later (rearrange rev ex_touch ex_tree) ''r'' =
       (ex_inventory_later, None, [])"
    by code_simp
  obtain r1 where r1: "generateDirectoryHashes A ex_env ex_inventory = Inr r1"
    by (auto simp: generateDirectoryHashes_def ex_env_def ex_inventory_def Let_def)
  obtain r2 where r2: "generateDirectoryHashes A ex_env_later ex_inventory_later = Inr r2"
    by (auto simp: generateDirectoryHashes_def ex_env_later_def ex_env_def ex_inventory_later_def Let_def)
  from digests_deterministic[OF nd pm ct ex_inventory_walk w2 r1 r2] ex_inventory_walk w2 r1 r2
  show "\<exists>r1 r2.
     createDirectoryInventory (CHR ''/'') ex_env ex_tree ''r'' = (ex_inventory, None, []) \<and>
     createDirectoryInventory (CHR ''/'') ex_env_later (rearrange rev ex_touch ex_tree) ''r'' =
       (ex_inventory_later, None, []) \<and>
     generateDirectoryHashes A ex_env ex_inventory = Inr r1 \<and>
     generateDirectoryHashes A ex_env_later ex_inventory_later = Inr r2 \<and>
     eleven_digests r1 = eleven_digests r2"
    by blast
qed


text \<open>
  C5. If opening or reading any regular file of the inventory fails, the digest pass
  returns an error (an open or a read error, and no hash result), and the run that
  called it ends with that fatal error and has written nothing to disk.
\<close>

theorem read_failure_aborts_run:
  assumes "fileInfo \<in> set (Files inventory)" and "\<not> IsDir fileInfo"
    and "content_of E (Path fileInfo) = Inl e"
  shows "\<exists>err. generateDirectoryHashes A E inventory = Inl err \<and>
           (\<exists>p e'. err = OpenError p e' \<or> err = ReadError p e') \<and>
           (os_Stat E dirPath \<noteq> Some ErrNotExist \<and>
            createDirectoryInventory sep E tree dirPath = (inventory, werr, lg) \<longrightarrow>
              main sep A E tree dirPath d = (Some (FatalHashes err), d, lg))"
proof -
  from hash_files_fail[OF assms, of new_hashers] obtain p e' where
    h: "hash_files E new_hashers (Files inventory) = Inl (OpenError p e') \<or>
        hash_files E new_hashers (Files inventory) = Inl (ReadError p e')" by blast
  then obtain err where g: "generateDirectoryHashes A E inventory = Inl err"
    and k: "err = OpenError p e' \<or> err = ReadError p e'"
    by (auto simp: generateDirectoryHashes_def)
  from main_hash_failure[of E dirPath sep tree inventory werr lg A err d] g k
  show ?thesis by blast
qed

theorem read_failure_aborts_run_witness:
  "\<forall>A d. generateDirectoryHashes A ex_env_unreadable ex_inventory = Inl (ReadError ''r/b.txt'' ErrIO) \<and>
     main (CHR ''/'') A ex_env_unreadable ex_tree ''r'' d =
       (Some (FatalHashes (ReadError ''r/b.txt'' ErrIO)), d, [])"
proof (intro allI)
  fix A d
  let ?f = "\<lparr> Path = ''r/b.txt'', Size = 5, ModTime = 0, IsDir = False, RelPath = ''b.txt'' \<rparr>"
  have 1: "?f \<in> set (Files ex_inventory)" by (simp add: ex_inventory_def)
  have 2: "\<not> IsDir ?f" by simp
  have 3: "content_of ex_env_unreadable (Path ?f) = Inl ErrIO"
    by (simp add: content_of_def ex_env_unreadable_def ex_env_def)
  have 4: "os_Stat ex_env_unreadable ''r'' \<noteq> Some ErrNotExist"
    by (simp add: ex_env_unreadable_def ex_env_def)
  have 5: "generateDirectoryHashes A ex_env_unreadable ex_inventory = Inl (ReadError ''r/b.txt'' ErrIO)"
    by (simp add: generateDirectoryHashes_def ex_env_unreadable_def ex_env_def ex_inventory_def
                  update_hashers_def)
  from read_failure_aborts_run[OF 1 2 3, of A "''r''" "CHR ''/''" ex_tree None "[]" d]
       4 5 ex_inventory_walk_unreadable
  show "generateDirectoryHashes A ex_env_unreadable ex_inventory = Inl (ReadError ''r/b.txt'' ErrIO) \<and>
     main (CHR ''/'') A ex_env_unreadable ex_tree ''r'' d =
       (Some (FatalHashes (ReadError ''r/b.txt'' ErrIO)), d, [])"
    by auto
qed


text \<open>
  C6. A walk-function call that reports an access failure writes one log line, leaves
  the inventory as it is and returns nil; so the walk of any tree ends without error,
  its log holds one line per failed entry in walk order, and its inventory is the one
  of the tree without the failed entries. A root that does not exist ends the run with
  a fatal error before anything is walked or written.
\<close>

theorem access_failures_logged_and_skipped:
  "inventory_walkFn sep rootDir (VisitErr path info e) (inventory, lg) =
     (None, inventory, lg @ [LogAccessError path e]) \<and>
   snd (createDirectoryInventory sep E tree rootDir) =
     (None, concat (map failure_log (visits sep tree rootDir))) \<and>
   fst (createDirectoryInventory sep E tree rootDir) =
     fst (createDirectoryInventory sep E (prune tree) rootDir) \<and>
   (os_Stat E rootDir = Some ErrNotExist \<longrightarrow>
      main sep A E tree rootDir d = (Some FatalDirNotExist, d, []))"
  by (simp add: createDirectoryInventory_closed visit_record_prune main_def
                inventory_walkFn_def)

theorem access_failures_logged_and_skipped_witness:
  "createDirectoryInventory (CHR ''/'') ex_env ex_tree_faulty ''r'' =
     (ex_inventory, None,
      [LogAccessError ''r/gone'' ErrNotExist, LogAccessError ''r/locked'' ErrPermission]) \<and>
   prune ex_tree_faulty =
     Directory ex_stat [(''b.txt'', RegularFile ex_stat), (''a.txt'', RegularFile ex_stat)] \<and>
   fst (createDirectoryInventory (CHR ''/'') ex_env (prune ex_tree_faulty) ''r'') = ex_inventory \<and>
   (\<forall>A d. main (CHR ''/'') A ex_env_missing ex_tree ''r'' d = (Some FatalDirNotExist, d, []))"
proof -
  have 1: "createDirectoryInventory (CHR ''/'') ex_env ex_tree_faulty ''r'' =
     (ex_inventory, None,
      [LogAccessError ''r/gone'' ErrNotExist, LogAccessError ''r/locked'' ErrPermission])"
    by code_simp
  have 2: "prune ex_tree_faulty =
     Directory ex_stat [(''b.txt'', RegularFile ex_stat), (''a.txt'', RegularFile ex_stat)]"
    by (simp add: ex_tree_faulty_def)
  have 3: "os_Stat ex_env_missing ''r'' = Some ErrNotExist"
    by (simp add: ex_env_missing_def ex_env_def)
  have 4: "main (CHR ''/'') A ex_env_missing ex_tree ''r'' d = (Some FatalDirNotExist, d, [])" for A d
    using access_failures_logged_and_skipped
            [of "CHR ''/''" "''r''" "''r/gone''" None ErrNotExist ex_inventory "[]"
                ex_env_missing ex_tree A d] 3
    by simp
  from access_failures_logged_and_skipped
         [of "CHR ''/''" "''r''" "''r/gone''" None ErrNotExist ex_inventory "[]"
             ex_env ex_tree_faulty] 1 2 4
  show ?thesis by simp
qed


text \<open>
  C7. No run that ends with a fatal error leaves a partial artifact that looks complete.
  As stated this fails: nothing in the code removes a file it has created. With an
  unreadable directory in the tree the inventory walk logs and skips it, the manifest
  is written in full, and the archive walk then stops at that directory with a fatal
  error; the deferred \<open>Close\<close> has written the central directory, so the archive on
  disk is a well-formed one that holds \<open>a.txt\<close> and lacks \<open>b.txt\<close>.
\<close>

theorem partial_archive_after_fatal_error:
  "fst (main (CHR ''/'') ex_algos ex_env ex_tree_locked ''r'' Map.empty) =
     Some (FatalZip (WalkOsError ErrPermission)) \<and>
   manifest_files (fst (snd (main (CHR ''/'') ex_algos ex_env ex_tree_locked ''r'' Map.empty)) ''r.toml'') =
     [''a.txt'', ''b.txt''] \<and>
   archive_names (fst (snd (main (CHR ''/'') ex_algos ex_env ex_tree_locked ''r'' Map.empty)) ''r.zip'') =
     [''a.txt''] \<and>
   archive_closed (fst (snd (main (CHR ''/'') ex_algos ex_env ex_tree_locked ''r'' Map.empty)) ''r.zip'')"
  by code_simp

text \<open>
  C7, amended. A run that ends with a fatal error before the manifest phase (root
  missing, inventory, digest pass, key or signature) leaves the disk as it was: neither
  manifest nor archive exists. A run that fails while writing the manifest has not
  touched the archive file. (What a failure in the manifest or the archive phase leaves
  of the file being written is not promised.)
\<close>

theorem no_artifact_after_early_failure:
  assumes "main sep A E tree dirPath d = (Some f, d', lg)"
  shows "((\<forall>e. f \<noteq> FatalToml e) \<and> (\<forall>e. f \<noteq> FatalZip e) \<longrightarrow> d' = d) \<and>
         ((\<forall>e. f \<noteq> FatalZip e) \<longrightarrow> d' (dirPath @ ''.zip'') = d (dirPath @ ''.zip''))"
  using assms
  by (auto simp: main_def Let_def createTomlFile_def
           split: if_splits prod.splits option.splits sum.splits)

theorem no_artifact_after_early_failure_witness:
  "main (CHR ''/'') ex_algos ex_env_unreadable ex_tree ''r'' Map.empty =
     (Some (FatalHashes (ReadError ''r/b.txt'' ErrIO)), Map.empty, [])"
proof -
  have g: "generateDirectoryHashes ex_algos ex_env_unreadable ex_inventory =
             Inl (ReadError ''r/b.txt'' ErrIO)"
    by (simp add: generateDirectoryHashes_def ex_env_unreadable_def ex_env_def ex_inventory_def
                  update_hashers_def)
  have s: "os_Stat ex_env_unreadable ''r'' \<noteq> Some ErrNotExist"
    by (simp add: ex_env_unreadable_def ex_env_def)
  have m: "main (CHR ''/'') ex_algos ex_env_unreadable ex_tree ''r'' Map.empty =
     (Some (FatalHashes (ReadError ''r/b.txt'' ErrIO)), Map.empty, [])"
    by (rule main_hash_failure[OF s ex_inventory_walk_unreadable g])
  from no_artifact_after_early_failure[OF m] m show ?thesis by simp
qed


text \<open>
  C8. The archive written for a source tree (entry names as a directory listing gives
  them) holds, in walk order, exactly one entry for each visited file or directory
  below the root, empty directories included, up to the point where the walk stopped,
  and for all of them when \<open>zipDirectory\<close> returns no error; each entry is named by the
  path below the root with slashes for separators (no backslash remains; directories
  end in a slash), and the root itself, the first visit, has no entry. An entry whose
  name ends in a slash is stored, as \<open>CreateHeader\<close> records it; the others are deflated.
\<close>

theorem archive_members:
  assumes "proper_names tree"
    and "os_Create E zipPath = None"
    and "zipDirectory sep E tree sourceDir zipPath d = (err, d')"
  shows "\<exists>arch v0 vs.
           d' zipPath = Some (ZipFile arch) \<and>
           visits sep tree sourceDir = v0 # vs \<and> visit_path v0 = sourceDir \<and>
           list_all2 (is_member_of sep sourceDir)
                     (take (length (zip_entries arch)) vs) (zip_entries arch) \<and>
           (err = None \<longrightarrow> length (zip_entries arch) = length vs) \<and>
           (\<forall>e \<in> set (zip_entries arch).
              CHR 0x5C \<notin> set (entry_Name e) \<and>
              entry_Method e = (if is_dir_name (entry_Name e) then Store else Deflate))"
proof -
  from visits_shape[of sep tree sourceDir] obtain v0 vs where
    vs: "visits sep tree sourceDir = v0 # vs" and v0: "visit_path v0 = sourceDir" by blast
  obtain err' written where
    w: "walk_calls (zip_walkFn sep E sourceDir) (v0 # vs) [] = (err', written)"
    by (cases "walk_calls (zip_walkFn sep E sourceDir) (v0 # vs) []")
  with assms(2,3) vs have e: "err' = err"
    and d': "d' = d(zipPath \<mapsto> ZipFile \<lparr> zip_entries = written,
                                            zip_central_directory = (zip_Close E = None) \<rparr>)"
    by (auto simp: zipDirectory_def Walk_def)
  obtain e0 w0 where f0: "zip_walkFn sep E sourceDir v0 [] = (e0, w0)"
    by (cases "zip_walkFn sep E sourceDir v0 []")
  from zip_walkFn_root[OF v0 f0] have w0: "w0 = []" .
  have under: "\<forall>w \<in> set vs. \<exists>r. visit_path w = sourceDir @ sep # r \<and> r \<noteq> ''.''"
    using visits_below_not_dot[OF assms(1) vs] by blast
  have "\<exists>new. written = new \<and>
           list_all2 (is_member_of sep sourceDir) (take (length new) vs) new \<and>
           (err' = None \<longrightarrow> length new = length vs)"
  proof (cases e0)
    case None
    with w f0 w0 have "walk_calls (zip_walkFn sep E sourceDir) vs [] = (err', written)" by simp
    from walk_calls_zip[OF under this] show ?thesis by simp
  next
    case (Some a)
    with w f0 w0 have "written = []" "err' \<noteq> None" by auto
    then show ?thesis by auto
  qed
  then have m: "list_all2 (is_member_of sep sourceDir) (take (length written) vs) written"
    and l: "err = None \<longrightarrow> length written = length vs" using e by auto
  have nb: "\<forall>e \<in> set written.
              CHR 0x5C \<notin> set (entry_Name e) \<and>
              entry_Method e = (if is_dir_name (entry_Name e) then Store else Deflate)"
  proof
    fix e assume e: "e \<in> set written"
    from m have len: "length (take (length written) vs) = length written"
      by (rule list_all2_lengthD)
    from in_set_impl_in_set_zip2[OF len e] obtain v where
      "(v, e) \<in> set (zip (take (length written) vs) written)" by blast
    with m have mem: "is_member_of sep sourceDir v e" by (auto simp: list_all2_iff)
    then have "CHR 0x5C \<notin> set (entry_Name e)" by (rule member_no_backslash)
    moreover from mem
    have "entry_Method e = (if is_dir_name (entry_Name e) then Store else Deflate)"
      by (cases v) (simp_all add: is_member_of_def)
    ultimately show "CHR 0x5C \<notin> set (entry_Name e) \<and>
        entry_Method e = (if is_dir_name (entry_Name e) then Store else Deflate)" by simp
  qed
  from d' vs v0 m l nb show ?thesis by simp
qed

theorem archive_members_witness:
  "fst (zipDirectory (CHR 0x5C) ex_env_swapped ex_tree_zip ''r'' ''r.zip'' Map.empty) = None \<and>
   archive_names (snd (zipDirectory (CHR 0x5C) ex_env_swapped ex_tree_zip ''r'' ''r.zip'' Map.empty) ''r.zip'') =
     [''a.txt'', ''docs/'', ''docs/x.txt'', ''empty/''] \<and>
   length (visits (CHR 0x5C) ex_tree_zip ''r'') = 5"
proof -
  have 1: "proper_names ex_tree_zip" by (simp add: ex_tree_zip_def)
  have 2: "os_Create ex_env_swapped ''r.zip'' = None"
    by (simp add: ex_env_swapped_def ex_env_def)
  obtain d' where 3: "zipDirectory (CHR 0x5C) ex_env_swapped ex_tree_zip ''r'' ''r.zip'' Map.empty = (None, d')"
    by (simp add: zipDirectory_def 2 ex_zip_walk)
  have 4: "archive_names (snd (zipDirectory (CHR 0x5C) ex_env_swapped ex_tree_zip ''r'' ''r.zip'' Map.empty) ''r.zip'') =
     [''a.txt'', ''docs/'', ''docs/x.txt'', ''empty/'']"
    by (simp add: zipDirectory_def 2 ex_zip_walk)
  from archive_members[OF 1 2 3] obtain arch v0 vs where
    a: "d' ''r.zip'' = Some (ZipFile arch)" "visits (CHR 0x5C) ex_tree_zip ''r'' = v0 # vs"
       "length (zip_entries arch) = length vs" by auto
  from a 3 4 have "map entry_Name (zip_entries arch) = [''a.txt'', ''docs/'', ''docs/x.txt'', ''empty/'']"
    by simp
  then have "length (zip_entries arch) = 4"
    using length_map[of entry_Name "zip_entries arch"] by simp
  with a have "length (visits (CHR 0x5C) ex_tree_zip ''r'') = 5" by simp
  with 3 4 show ?thesis by simp
qed


text \<open>
  C9. Adding a zero-byte regular file anywhere in a tree (to a readable directory that
  has no entry of that name) raises \<open>TotalFiles\<close> by one, leaves \<open>TotalSize\<close> and
  \<open>TotalDirs\<close> as they were, and leaves the whole result of the digest pass, the eleven
  digests included, as it was; the manifest header written from the new inventory
  carries these totals and the hash result.
\<close>

theorem empty_file_neutral:
  assumes "names_distinct tree" and "can_add tree ds name"
    and "st_Size nst = 0"
    and "content_of E (rootDir @ join_comps sep (ds @ [name])) = Inr []"
    and "createDirectoryInventory sep E tree rootDir = (inventory, err, lg)"
    and "createDirectoryInventory sep E (add_file tree (Some (ds, name, nst))) rootDir =
           (inventory', err', lg')"
  shows "TotalFiles inventory' = TotalFiles inventory + 1 \<and>
         TotalSize inventory' = TotalSize inventory \<and>
         TotalDirs inventory' = TotalDirs inventory \<and>
         generateDirectoryHashes A E inventory' = generateDirectoryHashes A E inventory \<and>
         (createTomlFile E tomlPath dirName inventory' hashResult d = (None, d1) \<longrightarrow>
            (\<exists>h rest. d1 tomlPath = Some (TomlFile (TomlHeader h # rest)) \<and>
               toml_total_files h = TotalFiles inventory + 1 \<and>
               toml_total_size_bytes h = TotalSize inventory \<and>
               toml_hashes h = hashResult))"
proof -
  from visits_add_file[OF assms(1,2), of sep rootDir nst] obtain vs1 vs2 where
    v: "visits sep tree rootDir = vs1 @ vs2"
       "visits sep (add_file tree (Some (ds, name, nst))) rootDir =
          vs1 @ VisitOk (rootDir @ join_comps sep (ds @ [name])) (file_info nst False) # vs2"
    by blast
  have fi: "file_info nst False = \<lparr> info_Size = 0, info_ModTime = st_ModTime nst, info_IsDir = False \<rparr>"
    by (simp add: file_info_def assms(3))
  from empty_visit_neutral[OF v(1) v(2)[unfolded fi] join_comps_snoc_neq assms(4) assms(5) assms(6), of A]
  have n: "TotalFiles inventory' = TotalFiles inventory + 1 \<and>
         TotalSize inventory' = TotalSize inventory \<and>
         TotalDirs inventory' = TotalDirs inventory \<and>
         generateDirectoryHashes A E inventory' = generateDirectoryHashes A E inventory" .
  have "\<exists>h rest. d1 tomlPath = Some (TomlFile (TomlHeader h # rest)) \<and>
               toml_total_files h = TotalFiles inventory + 1 \<and>
               toml_total_size_bytes h = TotalSize inventory \<and>
               toml_hashes h = hashResult"
    if "createTomlFile E tomlPath dirName inventory' hashResult d = (None, d1)"
    using createTomlFile_header[OF that] n by auto
  with n show ?thesis by blast
qed

theorem empty_file_neutral_witness:
  "\<forall>A. createDirectoryInventory (CHR ''/'') ex_env_empty ex_tree ''r'' = (ex_inventory, None, []) \<and>
     createDirectoryInventory (CHR ''/'') ex_env_empty
        (add_file ex_tree (Some ([], ''empty.txt'', ex_stat_empty))) ''r'' =
       (ex_inventory_empty, None, []) \<and>
     TotalFiles ex_inventory_empty = TotalFiles ex_inventory + 1 \<and>
     TotalSize ex_inventory_empty = TotalSize ex_inventory \<and>
     generateDirectoryHashes A ex_env_empty ex_inventory_empty =
       generateDirectoryHashes A ex_env_empty ex_inventory \<and>
     (\<exists>r. generateDirectoryHashes A ex_env_empty ex_inventory = Inr r)"
proof
  fix A
  have 1: "names_distinct ex_tree" by (simp add: ex_tree_def)
  have 2: "can_add ex_tree [] ''empty.txt''" by (simp add: ex_tree_def)
  have 3: "st_Size ex_stat_empty = 0" by (simp add: ex_stat_empty_def)
  have 4: "content_of ex_env_empty (''r'' @ join_comps (CHR ''/'') ([] @ [''empty.txt''])) = Inr []"
    by (simp add: content_of_def ex_env_empty_def join_comps_def)
  have 5: "createDirectoryInventory (CHR ''/'') ex_env_empty ex_tree ''r'' = (ex_inventory, None, [])"
    by code_simp
  have 6: "createDirectoryInventory (CHR ''/'') ex_env_empty
        (add_file ex_tree (Some ([], ''empty.txt'', ex_stat_empty))) ''r'' =
       (ex_inventory_empty, None, [])"
    by code_simp
  have 7: "\<exists>r. generateDirectoryHashes A ex_env_empty ex_inventory = Inr r"
    by (simp add: generateDirectoryHashes_def ex_env_empty_def ex_env_def ex_inventory_def Let_def)
  from empty_file_neutral[OF 1 2 3 4 5 6, of A] 5 6 7
  show "createDirectoryInventory (CHR ''/'') ex_env_empty ex_tree ''r'' = (ex_inventory, None, []) \<and>
     createDirectoryInventory (CHR ''/'') ex_env_empty
        (add_file ex_tree (Some ([], ''empty.txt'', ex_stat_empty))) ''r'' =
       (ex_inventory_empty, None, []) \<and>
     TotalFiles ex_inventory_empty = TotalFiles ex_inventory + 1 \<and>
     TotalSize ex_inventory_empty = TotalSize ex_inventory \<and>
     generateDirectoryHashes A ex_env_empty ex_inventory_empty =
       generateDirectoryHashes A ex_env_empty ex_inventory \<and>
     (\<exists>r. generateDirectoryHashes A ex_env_empty ex_inventory = Inr r)"
    by simp
qed


text \<open>
  C10. For every inventory the walker returns, \<open>TotalSize\<close> equals the sum of the sizes
  of the non-directory records. As stated this fails: \<open>TotalSize\<close> and the sizes are
  \<open>int64\<close>, and the additions of line 338 wrap around. For a directory with two files
  of \<open>2 ^ 62\<close> bytes the sizes of the two records sum to \<open>2 ^ 63\<close>, and \<open>TotalSize\<close> is
  \<open>- (2 ^ 63)\<close>.
\<close>

theorem total_size_wraps_around:
  "map Size (Files (fst (createDirectoryInventory (CHR ''/'') ex_env ex_tree_huge ''r''))) =
     [2 ^ 62, 2 ^ 62] \<and>
   map IsDir (Files (fst (createDirectoryInventory (CHR ''/'') ex_env ex_tree_huge ''r''))) =
     [False, False] \<and>
   sum_list (map (sint \<circ> Size) (filter (\<lambda>f. \<not> IsDir f)
      (Files (fst (createDirectoryInventory (CHR ''/'') ex_env ex_tree_huge ''r''))))) = 2 ^ 63 \<and>
   sint (TotalSize (fst (createDirectoryInventory (CHR ''/'') ex_env ex_tree_huge ''r''))) =
     - (2 ^ 63)"
  by code_simp

text \<open>
  C10, amended. For every inventory the walker returns, \<open>TotalFiles\<close> is the number of
  non-directory records and \<open>TotalDirs\<close> the number of directory records; \<open>TotalSize\<close>
  is the sum of the sizes of the non-directory records in \<open>int64\<close> arithmetic, and it
  is their sum as integers whenever that sum is an \<open>int64\<close> value, that is, for the
  non-negative sizes files have, whenever it is below \<open>2 ^ 63\<close>.
\<close>

theorem inventory_aggregates_consistent:
  "createDirectoryInventory sep E tree rootDir = (inventory, err, lg) \<Longrightarrow>
     TotalFiles inventory = int (length (filter (\<lambda>f. \<not> IsDir f) (Files inventory))) \<and>
     TotalDirs inventory = int (length (filter IsDir (Files inventory))) \<and>
     TotalSize inventory = sum_list (map Size (filter (\<lambda>f. \<not> IsDir f) (Files inventory))) \<and>
     (- (2 ^ 63) \<le> sum_list (map (sint \<circ> Size) (filter (\<lambda>f. \<not> IsDir f) (Files inventory))) \<and>
      sum_list (map (sint \<circ> Size) (filter (\<lambda>f. \<not> IsDir f) (Files inventory))) < 2 ^ 63 \<longrightarrow>
        sint (TotalSize inventory) =
          sum_list (map (sint \<circ> Size) (filter (\<lambda>f. \<not> IsDir f) (Files inventory))))"
proof -
  let ?fs = "concat (map (visit_record sep rootDir) (visits sep tree rootDir))"
  assume "createDirectoryInventory sep E tree rootDir = (inventory, err, lg)"
  then have i: "inventory =
      with_records \<lparr> RootDir = rootDir, Files = [], TotalSize = 0, TotalFiles = 0,
                       TotalDirs = 0, InventoryAt = time_Now E \<rparr> ?fs"
    by (simp add: createDirectoryInventory_closed)
  show ?thesis
    using sint_sum_list_exact[of "map Size (filter (\<lambda>f. \<not> IsDir f) ?fs)"]
    by (simp add: i with_records_def comp_def)
qed

theorem inventory_aggregates_consistent_witness:
  "createDirectoryInventory (CHR ''/'') ex_env ex_tree ''r'' = (ex_inventory, None, []) \<and>
   TotalFiles ex_inventory = 2 \<and> TotalDirs ex_inventory = 0 \<and> TotalSize ex_inventory = 10 \<and>
   sint (TotalSize ex_inventory) = 10"
  using inventory_aggregates_consistent[OF ex_inventory_walk] ex_inventory_walk
  by (simp add: ex_inventory_def)


end
